theory Spec2Isabelle
  imports Main "HOL-Library.Sublist" "HOL-Library.AList" "HOL-Library.Multiset"
begin

section \<open>Data model of the parser (src/parser/core/Parser.js)\<close>

text \<open>
  Module identifiers are the string keys of \<^verbatim>\<open>_constructors\<close>. The analysis modules
  themselves are external to the engine: what a module's constructor, \<^verbatim>\<open>normalise\<close>,
  \<^verbatim>\<open>triggerEvent\<close> and \<^verbatim>\<open>output\<close> do is a parameter of the model (the record
  \<open>env\<close> below), given as a function of the history of calls made so far, so that a module may
  behave differently on every call. Module code is assumed not to call back into the parser while
  it is being called.
\<close>

type_synonym modid = string

type_synonym markup = string

record fight =
  start_time :: int
  end_time :: int

text \<open>An event as the trigger pass sees it: a type tag, a timestamp, the optional
  \<^verbatim>\<open>trigger\<close> property and the \<^verbatim>\<open>__fabricated\<close> mark.\<close>

record event =
  ev_type :: string
  timestamp :: int
  trigger :: "string option"
  fabricated :: bool

text \<open>The object literal handed to \<^verbatim>\<open>fabricateEvent\<close>: its \<^verbatim>\<open>timestamp\<close> and
  \<^verbatim>\<open>trigger\<close> properties may be absent (\<open>None\<close>).\<close>

record event_props =
  props_type :: string
  props_timestamp :: "int option"
  props_trigger :: "string option option"

text \<open>A value thrown by module code or by a library; an \<^verbatim>\<open>Error\<close> object, hence truthy.
  \<open>CyclicDependency node\<close> is the error of toposort, whose message is
  \<^verbatim>\<open>Cyclic dependency, node was:\<close> and the node.\<close>

datatype thrown = Exception string | CyclicDependency modid

text \<open>The values stored in \<^verbatim>\<open>_moduleErrors\<close>: the caught value, or
  \<^verbatim>\<open>new DependencyCascadeError({dependency: mod})\<close>.\<close>

datatype error = Caught thrown | DependencyCascadeError modid

text \<open>An exception that leaves the engine. \<open>CallStackExceeded\<close> is the \<^verbatim>\<open>RangeError\<close> of
  unbounded recursion.\<close>

datatype failure = Uncaught thrown | CallStackExceeded

text \<open>The static side of a module class: \<^verbatim>\<open>dependencies\<close>, \<^verbatim>\<open>displayOrder\<close>, and the
  name its instances report.\<close>

record module_class =
  dependencies :: "modid list"
  displayOrder :: int
  mod_name :: string

text \<open>A module instance: its class (\<^verbatim>\<open>module.constructor\<close>) and the references injected by
  \<^verbatim>\<open>module[dep] = this.modules[dep]\<close>; a reference is the identifier of the instance it points
  to, or \<open>None\<close> for \<^verbatim>\<open>undefined\<close>.\<close>

record module_instance =
  inst_class :: module_class
  injected :: "(modid \<times> modid option) list"

datatype call =
    Construct modid
  | Normalise modid "event list"
  | TriggerEvent modid event
  | Output modid

text \<open>What the module code does: the class constructor, \<^verbatim>\<open>normalise\<close>, \<^verbatim>\<open>triggerEvent\<close>
  (\<open>handleEvent\<close>) and \<^verbatim>\<open>output\<close> (\<open>moduleOutput\<close>), each given the calls made before it.\<close>

record env =
  construct :: "call list \<Rightarrow> modid \<Rightarrow> thrown option"
  normalise :: "call list \<Rightarrow> modid \<Rightarrow> event list \<Rightarrow> thrown + event list"
  handleEvent :: "call list \<Rightarrow> modid \<Rightarrow> event \<Rightarrow> thrown option"
  moduleOutput :: "call list \<Rightarrow> modid \<Rightarrow> thrown + markup option"

text \<open>The fields of \<^verbatim>\<open>Parser\<close> the engine uses. \<open>calls\<close> is not a field of the source: it
  records every call the engine makes into module code, in order.\<close>

record parser =
  the_fight :: fight
  cur_timestamp :: int
  modules :: "modid \<rightharpoonup> module_instance"
  constructors :: "(modid \<times> module_class) list"
  moduleOrder :: "modid list"
  triggerModules :: "modid list"
  moduleErrors :: "modid \<rightharpoonup> error"
  calls :: "call list"

type_synonym outcome = "(failure \<times> parser) + parser"

section \<open>Array primitives\<close>

text \<open>\<^verbatim>\<open>Array.prototype.indexOf\<close>: the first index, or \<open>-1\<close>.\<close>

fun indexOf :: "'a list \<Rightarrow> 'a \<Rightarrow> int" where
  "indexOf [] x = - 1"
| "indexOf (y # ys) x =
     (if y = x then 0 else (let i = indexOf ys x in if i < 0 then - 1 else i + 1))"

text \<open>\<^verbatim>\<open>Array.prototype.splice(start, deleteCount)\<close> without inserted items: a negative
  \<open>start\<close> counts from the end.\<close>

definition splice_array :: "int \<Rightarrow> nat \<Rightarrow> 'a list \<Rightarrow> 'a list" where
  "splice_array start deleteCount xs =
     (let len = int (length xs);
          s = nat (if start < 0 then max (len + start) 0 else min start len)
      in take s xs @ drop (s + deleteCount) xs)"

text \<open>\<^verbatim>\<open>forEach\<close> over an array that the callback does not change; an exception ends it.\<close>

fun forEach :: "('a \<Rightarrow> parser \<Rightarrow> outcome) \<Rightarrow> 'a list \<Rightarrow> parser \<Rightarrow> outcome" where
  "forEach f [] p = Inr p"
| "forEach f (x # xs) p = (case f x p of Inl e \<Rightarrow> Inl e | Inr p' \<Rightarrow> forEach f xs p')"

section \<open>Properties and constructor\<close>

definition currentTimestamp :: "parser \<Rightarrow> int" where
  "currentTimestamp p = min (end_time (the_fight p)) (cur_timestamp p)"

definition fightDuration :: "parser \<Rightarrow> int" where
  "fightDuration p = currentTimestamp p - start_time (the_fight p)"

text \<open>\<^verbatim>\<open>Object.assign(this._constructors, modules)\<close>: an existing key keeps its place and takes
  the new value, a new key is appended. The association list is in the order of
  \<^verbatim>\<open>Object.keys\<close>; module identifiers are names, not array indices, which an object would
  enumerate first.\<close>

definition addModules :: "(modid \<times> module_class) list \<Rightarrow> parser \<Rightarrow> parser" where
  "addModules ms p =
     p\<lparr>constructors := foldl (\<lambda>cs (k, c). AList.update k c cs) (constructors p) ms\<rparr>"

text \<open>The constructor; \<open>defaultModules\<close> are the imported core module classes.\<close>

definition new_parser :: "(modid \<times> module_class) list \<Rightarrow> fight \<Rightarrow> parser" where
  "new_parser defaultModules f =
     addModules defaultModules
       \<lparr>the_fight = f, cur_timestamp = start_time f, modules = Map.empty, constructors = [],
        moduleOrder = [], triggerModules = [], moduleErrors = Map.empty, calls = []\<rparr>"

section \<open>Module handling\<close>

definition nodes_of :: "(modid \<times> module_class) list \<Rightarrow> modid list" where
  "nodes_of cs = map fst cs"

definition edges_of :: "(modid \<times> module_class) list \<Rightarrow> (modid \<times> modid) list" where
  "edges_of cs = concat (map (\<lambda>(m, c). map (\<lambda>dep. (m, dep)) (dependencies c)) cs)"

text \<open>The body of the loop that initialises the modules.\<close>

definition initModule :: "env \<Rightarrow> modid \<Rightarrow> parser \<Rightarrow> outcome" where
  "initModule en m p =
     (case map_of (constructors p) m of
        None \<Rightarrow> Inl (Uncaught (Exception ''TypeError''), p)
      | Some c \<Rightarrow>
          (let p1 = p\<lparr>calls := calls p @ [Construct m]\<rparr> in
           case construct en (calls p) m of
             Some e \<Rightarrow> Inl (Uncaught e, p1)
           | None \<Rightarrow>
               Inr (p1\<lparr>modules := (modules p1)(m \<mapsto>
                      \<lparr>inst_class = c,
                       injected = map (\<lambda>dep. (dep, if dep \<in> dom (modules p1) then Some dep else None))
                                      (dependencies c)\<rparr>)\<rparr>)))"

text \<open>\<^verbatim>\<open>buildModules\<close>. The function \<open>toposort\<close> stands for \<^verbatim>\<open>toposort.array\<close> of the
  toposort package, which the source imports: it returns the sorted nodes or throws.\<close>

definition buildModules ::
  "(modid list \<Rightarrow> (modid \<times> modid) list \<Rightarrow> thrown + modid list) \<Rightarrow> env \<Rightarrow> parser \<Rightarrow> outcome" where
  "buildModules toposort en p =
     (let nodes = nodes_of (constructors p);
          edges = edges_of (constructors p)
      in case toposort nodes edges of
           Inl e \<Rightarrow> Inl (Uncaught e, p)
         | Inr srt \<Rightarrow>
             (let p1 = p\<lparr>moduleOrder := rev srt\<rparr>
              in forEach (initModule en) (moduleOrder p1) p1))"

section \<open>Event handling\<close>

text \<open>\<^verbatim>\<open>_setModuleError\<close>. The first argument bounds the depth of the recursion; at depth \<open>0\<close>
  the call stack is exhausted.\<close>

primrec setModuleError :: "nat \<Rightarrow> modid \<Rightarrow> error \<Rightarrow> parser \<Rightarrow> outcome" where
  "setModuleError 0 m err p = Inl (CallStackExceeded, p)"
| "setModuleError (Suc n) m err p =
     forEach
       (\<lambda>(key, c) q.
          if m \<in> set (dependencies c)
          then setModuleError n key (DependencyCascadeError m) q
          else Inr q)
       (constructors p)
       (p\<lparr>triggerModules := splice_array (indexOf (triggerModules p) m) 1 (triggerModules p),
          moduleErrors := (moduleErrors p)(m \<mapsto> err)\<rparr>)"

text \<open>The recursion of \<^verbatim>\<open>_setModuleError\<close> is as deep as the longest chain of dependents, at
  most the number of registered modules plus one when the dependencies are acyclic.\<close>

definition stackDepth :: "parser \<Rightarrow> nat" where
  "stackDepth p = Suc (length (constructors p))"

text \<open>The \<^verbatim>\<open>try\<close> block of \<^verbatim>\<open>triggerEvent\<close>: the value thrown, if any, and the parser after
  the call.\<close>

definition callTriggerEvent :: "env \<Rightarrow> modid \<Rightarrow> event \<Rightarrow> parser \<Rightarrow> thrown option \<times> parser" where
  "callTriggerEvent en m ev p =
     (case modules p m of
        None \<Rightarrow> (Some (Exception ''TypeError''), p)
      | Some i \<Rightarrow> (handleEvent en (calls p) m ev, p\<lparr>calls := calls p @ [TriggerEvent m ev]\<rparr>))"

text \<open>\<^verbatim>\<open>this._triggerModules.forEach\<close> in \<^verbatim>\<open>triggerEvent\<close>: the callback changes the array it
  iterates. \<^verbatim>\<open>forEach\<close> fixes the number of indices at the start, visits index \<open>k\<close> only when
  it is still in the array, and reads the element that is at \<open>k\<close> then. \<open>deliver en ev k n\<close>
  visits the \<open>n\<close> indices from \<open>k\<close>.\<close>

fun deliver :: "env \<Rightarrow> event \<Rightarrow> nat \<Rightarrow> nat \<Rightarrow> parser \<Rightarrow> outcome" where
  "deliver en ev k 0 p = Inr p"
| "deliver en ev k (Suc n) p =
     (if k < length (triggerModules p) then
        (let m = triggerModules p ! k in
         case callTriggerEvent en m ev p of
           (None, p1) \<Rightarrow> deliver en ev (Suc k) n p1
         | (Some e, p1) \<Rightarrow>
             (case setModuleError (stackDepth p1) m (Caught e) p1 of
                Inl f \<Rightarrow> Inl f
              | Inr p2 \<Rightarrow> deliver en ev (Suc k) n p2))
      else deliver en ev (Suc k) n p)"

definition triggerEvent :: "env \<Rightarrow> event \<Rightarrow> parser \<Rightarrow> outcome" where
  "triggerEvent en ev p = deliver en ev 0 (length (triggerModules p)) p"

text \<open>The object literal \<^verbatim>\<open>fabricateEvent\<close> builds: the current timestamp and the \<^verbatim>\<open>trigger\<close>
  argument, overridden by the properties of the event given, and the mark last.\<close>

definition fabricated_event :: "event_props \<Rightarrow> string option \<Rightarrow> parser \<Rightarrow> event" where
  "fabricated_event props trig p =
     \<lparr>ev_type = props_type props,
      timestamp = (case props_timestamp props of None \<Rightarrow> currentTimestamp p | Some t \<Rightarrow> t),
      trigger = (case props_trigger props of None \<Rightarrow> trig | Some t \<Rightarrow> t),
      fabricated = True\<rparr>"

definition fabricateEvent :: "env \<Rightarrow> event_props \<Rightarrow> string option \<Rightarrow> parser \<Rightarrow> outcome" where
  "fabricateEvent en props trig p = triggerEvent en (fabricated_event props trig p) p"

text \<open>The normalisers: \<^verbatim>\<open>events = this.modules[mod].normalise(events)\<close>, no error handling.\<close>

fun runNormalisers ::
  "env \<Rightarrow> modid list \<Rightarrow> event list \<Rightarrow> parser \<Rightarrow> (failure \<times> parser) + (event list \<times> parser)" where
  "runNormalisers en [] events p = Inr (events, p)"
| "runNormalisers en (m # ms) events p =
     (case modules p m of
        None \<Rightarrow> Inl (Uncaught (Exception ''TypeError''), p)
      | Some i \<Rightarrow>
          (let p1 = p\<lparr>calls := calls p @ [Normalise m events]\<rparr> in
           case normalise en (calls p) m events of
             Inl e \<Rightarrow> Inl (Uncaught e, p1)
           | Inr events' \<Rightarrow> runNormalisers en ms events' p1))"

definition props :: "string \<Rightarrow> event_props" where
  "props ty = \<lparr>props_type = ty, props_timestamp = None, props_trigger = None\<rparr>"

definition analyse :: "env \<Rightarrow> event \<Rightarrow> parser \<Rightarrow> outcome" where
  "analyse en ev p = triggerEvent en ev (p\<lparr>cur_timestamp := timestamp ev\<rparr>)"

definition parseEvents :: "env \<Rightarrow> event list \<Rightarrow> parser \<Rightarrow> outcome" where
  "parseEvents en events p =
     (case runNormalisers en (moduleOrder p) events p of
        Inl f \<Rightarrow> Inl f
      | Inr (events', p1) \<Rightarrow>
          (let p2 = p1\<lparr>triggerModules := moduleOrder p1\<rparr> in
           case fabricateEvent en (props ''init'') None p2 of
             Inl f \<Rightarrow> Inl f
           | Inr p3 \<Rightarrow>
               (case forEach (analyse en) events' p3 of
                  Inl f \<Rightarrow> Inl f
                | Inr p4 \<Rightarrow> fabricateEvent en (props ''complete'') None p4)))"

section \<open>Results handling\<close>

datatype report_markup = ErrorMessage error | Markup markup

text \<open>The comparator key \<^verbatim>\<open>this.modules[a].constructor.displayOrder\<close>.\<close>

definition displayOrderOf :: "parser \<Rightarrow> modid \<Rightarrow> int" where
  "displayOrderOf p m = (case modules p m of None \<Rightarrow> 0 | Some i \<Rightarrow> displayOrder (inst_class i))"

text \<open>The body of the loop of \<^verbatim>\<open>generateResults\<close>; the results are the first component.\<close>

definition resultOf ::
  "env \<Rightarrow> modid \<Rightarrow> (string \<times> report_markup) list \<times> parser
     \<Rightarrow> (failure \<times> parser) + ((string \<times> report_markup) list \<times> parser)" where
  "resultOf en m rp =
     (case rp of (results, p) \<Rightarrow>
        (case modules p m of
           None \<Rightarrow> Inl (Uncaught (Exception ''TypeError''), p)
         | Some i \<Rightarrow>
             (case moduleErrors p m of
                Some err \<Rightarrow> Inr (results @ [(mod_name (inst_class i), ErrorMessage err)], p)
              | None \<Rightarrow>
                  (let p1 = p\<lparr>calls := calls p @ [Output m]\<rparr> in
                   case moduleOutput en (calls p) m of
                     Inl e \<Rightarrow> Inl (Uncaught e, p1)
                   | Inr None \<Rightarrow> Inr (results, p1)
                   | Inr (Some out) \<Rightarrow> Inr (results @ [(mod_name (inst_class i), Markup out)], p1)))))"

fun collectResults ::
  "env \<Rightarrow> modid list \<Rightarrow> (string \<times> report_markup) list \<times> parser
     \<Rightarrow> (failure \<times> parser) + ((string \<times> report_markup) list \<times> parser)" where
  "collectResults en [] rp = Inr rp"
| "collectResults en (m # ms) rp =
     (case resultOf en m rp of Inl f \<Rightarrow> Inl f | Inr rp' \<Rightarrow> collectResults en ms rp')"

text \<open>\<^verbatim>\<open>generateResults\<close>. \<^verbatim>\<open>displayOrder\<close> is the array \<^verbatim>\<open>this.moduleOrder\<close> itself, so the
  sort reorders \<^verbatim>\<open>moduleOrder\<close>. \<^verbatim>\<open>Array.prototype.sort\<close> is stable (ECMAScript 2019), which
  \<open>sort_key\<close> is too. The comparator reads the class of every module it compares, so a module
  of \<^verbatim>\<open>moduleOrder\<close> without an instance is a \<^verbatim>\<open>TypeError\<close>, in the sort or in the loop.\<close>

definition generateResults ::
  "env \<Rightarrow> parser \<Rightarrow> (failure \<times> parser) + ((string \<times> report_markup) list \<times> parser)" where
  "generateResults en p =
     (if \<exists>m \<in> set (moduleOrder p). modules p m = None
      then Inl (Uncaught (Exception ''TypeError''), p)
      else
        (let p1 = p\<lparr>moduleOrder := sort_key (displayOrderOf p) (moduleOrder p)\<rparr>
         in collectResults en (moduleOrder p1) ([], p1)))"

section \<open>The toposort package\<close>

text \<open>
  \<^verbatim>\<open>toposort.array(nodes, edges)\<close> of the toposort package (version 2), which the source imports
  and which is not part of the repository. It rejects an edge with an unknown end, then visits the
  nodes from the last to the first, depth first along the outgoing edges of a node from the last
  to the first, and puts every finished node in front of the nodes finished before it; meeting a
  node that is being visited is a cyclic dependency. The nodes are the keys of an object, hence
  distinct. \<open>outgoing\<close> is the set of targets of a node in insertion order.
\<close>

definition outgoing :: "(modid \<times> modid) list \<Rightarrow> modid \<Rightarrow> modid list" where
  "outgoing edges node = rev (remdups (rev (map snd (filter (\<lambda>e. fst e = node) edges))))"

fun visitAll ::
  "(modid \<Rightarrow> modid list \<times> modid list \<Rightarrow> thrown + modid list \<times> modid list)
     \<Rightarrow> modid list \<Rightarrow> modid list \<times> modid list \<Rightarrow> thrown + modid list \<times> modid list" where
  "visitAll f [] st = Inr st"
| "visitAll f (c # cs) st = (case f c st of Inl e \<Rightarrow> Inl e | Inr st' \<Rightarrow> visitAll f cs st')"

primrec visit ::
  "nat \<Rightarrow> modid list \<Rightarrow> (modid \<times> modid) list \<Rightarrow> modid list \<Rightarrow> modid
     \<Rightarrow> modid list \<times> modid list \<Rightarrow> thrown + modid list \<times> modid list" where
  "visit 0 nodes edges predecessors node st = Inl (Exception ''RangeError'')"
| "visit (Suc n) nodes edges predecessors node st =
     (if node \<in> set predecessors then Inl (CyclicDependency node)
      else if node \<notin> set nodes then Inl (Exception ''Found unknown node'')
      else if node \<in> set (fst st) then Inr st
      else
        (case visitAll (visit n nodes edges (node # predecessors)) (rev (outgoing edges node))
                (node # fst st, snd st) of
           Inl e \<Rightarrow> Inl e
         | Inr st' \<Rightarrow> Inr (fst st', node # snd st')))"

definition toposort_array :: "modid list \<Rightarrow> (modid \<times> modid) list \<Rightarrow> thrown + modid list" where
  "toposort_array nodes edges =
     (if \<exists>e \<in> set edges. fst e \<notin> set nodes \<or> snd e \<notin> set nodes
      then Inl (Exception ''Unknown node'')
      else
        (case visitAll (visit (Suc (length nodes)) nodes edges []) (rev nodes) ([], []) of
           Inl e \<Rightarrow> Inl e
         | Inr st \<Rightarrow> Inr (snd st)))"

section \<open>Vocabulary of the properties\<close>

subsection \<open>Outcomes and calls\<close>

text \<open>The parser an outcome leaves behind: an exception does not undo what was done.\<close>

definition state_of :: "outcome \<Rightarrow> parser" where
  "state_of r = (case r of Inl (f, p) \<Rightarrow> p | Inr p \<Rightarrow> p)"

text \<open>The outcome is a parser, not an exception.\<close>

definition succeeded :: "outcome \<Rightarrow> bool" where
  "succeeded r = (case r of Inl f \<Rightarrow> False | Inr p \<Rightarrow> True)"

text \<open>The entries and the parser of an outcome of \<^verbatim>\<open>generateResults\<close>.\<close>

definition results_of ::
  "(failure \<times> parser) + ((string \<times> report_markup) list \<times> parser) \<Rightarrow> (string \<times> report_markup) list" where
  "results_of r = (case r of Inl f \<Rightarrow> [] | Inr (results, q) \<Rightarrow> results)"

definition parser_of ::
  "(failure \<times> parser) + ((string \<times> report_markup) list \<times> parser) \<Rightarrow> parser" where
  "parser_of r = (case r of Inl (f, q) \<Rightarrow> q | Inr (results, q) \<Rightarrow> q)"

text \<open>The module a call goes to, and the kinds of calls.\<close>

fun call_module :: "call \<Rightarrow> modid" where
  "call_module (Construct m) = m"
| "call_module (Normalise m evs) = m"
| "call_module (TriggerEvent m ev) = m"
| "call_module (Output m) = m"

fun is_trigger_call :: "call \<Rightarrow> bool" where
  "is_trigger_call (TriggerEvent m ev) = True"
| "is_trigger_call c = False"

fun is_output_call :: "call \<Rightarrow> bool" where
  "is_output_call (Output m) = True"
| "is_output_call c = False"

text \<open>The modules whose \<^verbatim>\<open>triggerEvent\<close> was called with the event \<open>ev\<close>, in the order of
  the calls.\<close>

fun recipients :: "event \<Rightarrow> call list \<Rightarrow> modid list" where
  "recipients ev [] = []"
| "recipients ev (TriggerEvent m e # cs) =
     (if e = ev then m # recipients ev cs else recipients ev cs)"
| "recipients ev (c # cs) = recipients ev cs"

subsection \<open>The dependency graph\<close>

text \<open>The graph has a cycle: some edge starts at a node that reaches itself.\<close>

definition cyclic :: "(modid \<times> modid) list \<Rightarrow> bool" where
  "cyclic edges \<longleftrightarrow> (\<exists>e \<in> set edges. (fst e, fst e) \<in> (set edges)\<^sup>+)"

text \<open>The node lies on a cycle of the graph.\<close>

definition on_cycle :: "(modid \<times> modid) list \<Rightarrow> modid \<Rightarrow> bool" where
  "on_cycle edges n \<longleftrightarrow> (n, n) \<in> (set edges)\<^sup>+"

text \<open>Both ends of every edge are nodes: every declared dependency is registered.\<close>

definition known_ends :: "modid list \<Rightarrow> (modid \<times> modid) list \<Rightarrow> bool" where
  "known_ends nodes edges \<longleftrightarrow> (\<forall>e \<in> set edges. fst e \<in> set nodes \<and> snd e \<in> set nodes)"

text \<open>\<open>a\<close> occurs in the list, strictly before \<open>b\<close>.\<close>

definition before :: "modid list \<Rightarrow> modid \<Rightarrow> modid \<Rightarrow> bool" where
  "before order a b \<longleftrightarrow> 0 \<le> indexOf order a \<and> indexOf order a < indexOf order b"

text \<open>What toposort promises for one graph: a list it returns holds every node once and the
  source of every edge before its target; its cyclic-dependency error names a node that lies on
  a cycle; it throws anything else only when an edge has an unknown end.\<close>

definition toposort_contract ::
  "(modid list \<Rightarrow> (modid \<times> modid) list \<Rightarrow> thrown + modid list)
     \<Rightarrow> modid list \<Rightarrow> (modid \<times> modid) list \<Rightarrow> bool" where
  "toposort_contract ts nodes edges \<longleftrightarrow>
     (case ts nodes edges of
        Inl e \<Rightarrow>
          (case e of
             CyclicDependency n \<Rightarrow> on_cycle edges n
           | Exception msg \<Rightarrow> \<not> known_ends nodes edges)
      | Inr srt \<Rightarrow>
          distinct srt \<and> set srt = set nodes \<and> (\<forall>e \<in> set edges. before srt (fst e) (snd e)))"

text \<open>The list holds every registered module once, and every declared dependency strictly
  before the module that declares it.\<close>

definition dependency_order :: "(modid \<times> module_class) list \<Rightarrow> modid list \<Rightarrow> bool" where
  "dependency_order cs order \<longleftrightarrow>
     distinct order \<and> set order = set (nodes_of cs) \<and>
     (\<forall>(m, c) \<in> set cs. \<forall>d \<in> set (dependencies c). before order d m)"

text \<open>\<open>a\<close> depends on \<open>b\<close>, directly or through other modules.\<close>

definition depends_on :: "(modid \<times> module_class) list \<Rightarrow> modid \<Rightarrow> modid \<Rightarrow> bool" where
  "depends_on cs a b \<longleftrightarrow> (a, b) \<in> (set (edges_of cs))\<^sup>+"

subsection \<open>Live modules and recorded errors\<close>

text \<open>\<open>same_modules p q\<close>: from \<open>p\<close> to \<open>q\<close> nothing but the live modules and the recorded
  errors has changed.\<close>

definition same_modules :: "parser \<Rightarrow> parser \<Rightarrow> bool" where
  "same_modules p q \<longleftrightarrow>
     calls q = calls p \<and> modules q = modules p \<and> constructors q = constructors p \<and>
     moduleOrder q = moduleOrder p \<and> the_fight q = the_fight p \<and> cur_timestamp q = cur_timestamp p"

text \<open>The module table, the registered classes, the build order and the fight are the same.\<close>

definition same_build :: "parser \<Rightarrow> parser \<Rightarrow> bool" where
  "same_build p q \<longleftrightarrow>
     modules q = modules p \<and> constructors q = constructors p \<and>
     moduleOrder q = moduleOrder p \<and> the_fight q = the_fight p"

text \<open>The live modules only shrink (keeping their order), the recorded errors only grow.\<close>

definition shrinks :: "parser \<Rightarrow> parser \<Rightarrow> bool" where
  "shrinks p q \<longleftrightarrow>
     subseq (triggerModules q) (triggerModules p) \<and> dom (moduleErrors p) \<subseteq> dom (moduleErrors q)"

text \<open>No module is live twice, and no live module has a recorded error.\<close>

definition isolated :: "parser \<Rightarrow> bool" where
  "isolated p \<longleftrightarrow> distinct (triggerModules p) \<and> set (triggerModules p) \<inter> dom (moduleErrors p) = {}"

text \<open>The two assignments at the head of \<^verbatim>\<open>_setModuleError\<close>.\<close>

definition mark_failed :: "modid \<Rightarrow> error \<Rightarrow> parser \<Rightarrow> parser" where
  "mark_failed m err p =
     p\<lparr>triggerModules := splice_array (indexOf (triggerModules p) m) 1 (triggerModules p),
       moduleErrors := (moduleErrors p)(m \<mapsto> err)\<rparr>"

text \<open>The entry is a \<^verbatim>\<open>DependencyCascadeError\<close> that names a dependency \<open>a\<close> declares, which is
  \<open>b\<close> or depends on \<open>b\<close>.\<close>

definition cascade_entry ::
  "(modid \<times> module_class) list \<Rightarrow> modid \<Rightarrow> modid \<Rightarrow> error option \<Rightarrow> bool" where
  "cascade_entry cs b a entry \<longleftrightarrow>
     (\<exists>x. entry = Some (DependencyCascadeError x) \<and> (a, x) \<in> set (edges_of cs) \<and>
          (x = b \<or> depends_on cs x b))"

text \<open>What \<^verbatim>\<open>_setModuleError\<close> has done when it returns, for the module \<open>b\<close> and the error
  \<open>err\<close> it was called with.\<close>

definition cascaded :: "modid \<Rightarrow> error \<Rightarrow> parser \<Rightarrow> parser \<Rightarrow> bool" where
  "cascaded b err p q \<longleftrightarrow>
     same_modules p q \<and> shrinks p q \<and> distinct (triggerModules q) \<and>
     b \<notin> set (triggerModules q) \<and> moduleErrors q b = Some err \<and>
     (\<forall>a. depends_on (constructors p) a b \<longrightarrow>
          a \<notin> set (triggerModules q) \<and> cascade_entry (constructors p) b a (moduleErrors q a)) \<and>
     (\<forall>a. a \<noteq> b \<and> \<not> depends_on (constructors p) a b \<longrightarrow> moduleErrors q a = moduleErrors p a)"

subsection \<open>Deliveries\<close>

text \<open>\<open>delivered ev ms p q\<close>: from \<open>p\<close> to \<open>q\<close> the event \<open>ev\<close> was handed to the modules
  \<open>ms\<close>, in that order, and to no other; no other call into module code was made.\<close>

definition delivered :: "event \<Rightarrow> modid list \<Rightarrow> parser \<Rightarrow> parser \<Rightarrow> bool" where
  "delivered ev ms p q \<longleftrightarrow>
     calls q = calls p @ map (\<lambda>m. TriggerEvent m ev) ms \<and> cur_timestamp q = cur_timestamp p \<and>
     same_build p q \<and> shrinks p q \<and> (isolated p \<longrightarrow> isolated q)"

text \<open>From \<open>p\<close> to \<open>q\<close> only \<^verbatim>\<open>triggerEvent\<close> calls were made, the live modules shrank and the
  errors grew.\<close>

definition trigger_steps :: "parser \<Rightarrow> parser \<Rightarrow> bool" where
  "trigger_steps p q \<longleftrightarrow>
     same_build p q \<and> shrinks p q \<and> (isolated p \<longrightarrow> isolated q) \<and>
     (\<exists>cs. calls q = calls p @ cs \<and> list_all is_trigger_call cs)"

text \<open>The trigger pass of \<^verbatim>\<open>parseEvents\<close>, from the fabricated \<open>init\<close> event on.\<close>

definition trigger_phase :: "env \<Rightarrow> event list \<Rightarrow> parser \<Rightarrow> outcome" where
  "trigger_phase en evs p2 =
     (case fabricateEvent en (props ''init'') None p2 of
             Inl f \<Rightarrow> Inl f
           | Inr p3 \<Rightarrow>
               (case forEach (analyse en) evs p3 of
                  Inl f \<Rightarrow> Inl f
                | Inr p4 \<Rightarrow> fabricateEvent en (props ''complete'') None p4))"

text \<open>\<open>chained en h evs cs\<close>: the calls \<open>cs\<close>, made after the calls \<open>h\<close>, are \<^verbatim>\<open>normalise\<close> calls, the
  first on the events \<open>evs\<close> and every later one on what the call before it returned; the result
  is what the last call returned or threw. A call after one that threw does not chain.\<close>

fun chained :: "env \<Rightarrow> call list \<Rightarrow> event list \<Rightarrow> call list \<Rightarrow> (thrown + event list) option" where
  "chained en h evs [] = Some (Inr evs)"
| "chained en h evs (Normalise m es # cs) =
     (if es \<noteq> evs then None
      else case normalise en h m es of
             Inl e \<Rightarrow> (if cs = [] then Some (Inl e) else None)
           | Inr evs' \<Rightarrow> chained en (h @ [Normalise m es]) evs' cs)"
| "chained en h evs (c # cs) = None"

subsection \<open>The report\<close>

text \<open>\<^verbatim>\<open>module.name\<close> of the instance of a module.\<close>

definition name_of :: "parser \<Rightarrow> modid \<Rightarrow> string" where
  "name_of p m = (case modules p m of None \<Rightarrow> [] | Some i \<Rightarrow> mod_name (inst_class i))"

text \<open>An entry in front of a report, unless the report ended in an exception.\<close>

definition with_entry ::
  "string \<times> report_markup \<Rightarrow> thrown + (string \<times> report_markup) list
     \<Rightarrow> thrown + (string \<times> report_markup) list" where
  "with_entry x r = (case r of Inl e \<Rightarrow> Inl e | Inr xs \<Rightarrow> Inr (x # xs))"

text \<open>The report as section 4.5 of the specification words it, over the modules \<open>ms\<close> in the order
  they are visited: an error placeholder for a module with a failure entry, else the output when
  there is one. \<open>h\<close> are the calls made so far; an \<^verbatim>\<open>output\<close> that throws ends the report.\<close>

fun report ::
  "env \<Rightarrow> parser \<Rightarrow> call list \<Rightarrow> modid list \<Rightarrow> thrown + (string \<times> report_markup) list" where
  "report en p h [] = Inr []"
| "report en p h (m # ms) =
     (case moduleErrors p m of
        Some err \<Rightarrow> with_entry (name_of p m, ErrorMessage err) (report en p h ms)
      | None \<Rightarrow>
          (case moduleOutput en h m of
             Inl e \<Rightarrow> Inl e
           | Inr None \<Rightarrow> report en p (h @ [Output m]) ms
           | Inr (Some out) \<Rightarrow> with_entry (name_of p m, Markup out) (report en p (h @ [Output m]) ms)))"

text \<open>The \<^verbatim>\<open>output\<close> calls of a report: one for every visited module without a recorded error.\<close>

definition output_calls :: "parser \<Rightarrow> modid list \<Rightarrow> call list" where
  "output_calls p ms = map Output (filter (\<lambda>m. moduleErrors p m = None) ms)"

text \<open>What \<^verbatim>\<open>output\<close> returns does not depend on earlier \<^verbatim>\<open>output\<close> calls.\<close>

definition repeatable_output :: "env \<Rightarrow> bool" where
  "repeatable_output en \<longleftrightarrow>
     (\<forall>h cs m. list_all is_output_call cs \<longrightarrow> moduleOutput en (h @ cs) m = moduleOutput en h m)"

subsection \<open>The depth-first visit of toposort\<close>

text \<open>Between two visits: the visited nodes are the finished ones and those on the stack
  \<open>predecessors\<close>; the finished nodes are in the sorted list once, and every edge that starts at
  a finished node ends at one that stands later in the list.\<close>

definition visit_inv ::
  "modid list \<Rightarrow> (modid \<times> modid) list \<Rightarrow> modid list \<Rightarrow> modid list \<times> modid list \<Rightarrow> bool" where
  "visit_inv nodes edges predecessors st \<longleftrightarrow>
     set (fst st) = set (snd st) \<union> set predecessors \<and>
     distinct (snd st) \<and> set (snd st) \<subseteq> set nodes \<and> set (snd st) \<inter> set predecessors = {} \<and>
     (\<forall>e \<in> set edges. fst e \<in> set (snd st) \<longrightarrow> before (snd st) (fst e) (snd e))"

text \<open>When a node is visited: it is a known node, the nodes on the stack are distinct and reach
  it, and the depth left covers the nodes not yet on the stack.\<close>

definition visit_pre ::
  "nat \<Rightarrow> modid list \<Rightarrow> (modid \<times> modid) list \<Rightarrow> modid list \<Rightarrow> modid \<Rightarrow> bool" where
  "visit_pre k nodes edges predecessors node \<longleftrightarrow>
     node \<in> set nodes \<and> distinct predecessors \<and> set predecessors \<subseteq> set nodes \<and>
     (\<forall>p \<in> set predecessors. (p, node) \<in> (set edges)\<^sup>+) \<and>
     length nodes + 1 \<le> k + length predecessors"

text \<open>After visiting the nodes \<open>done\<close>: either the error that names a node on a cycle, or
  the nodes are finished and the finished ones are kept.\<close>

definition visit_post ::
  "modid list \<Rightarrow> (modid \<times> modid) list \<Rightarrow> modid list \<Rightarrow> modid list
     \<Rightarrow> modid list \<times> modid list \<Rightarrow> thrown + modid list \<times> modid list \<Rightarrow> bool" where
  "visit_post nodes edges predecessors done st r \<longleftrightarrow>
     (case r of
        Inl e \<Rightarrow> (\<exists>m. e = CyclicDependency m \<and> on_cycle edges m)
      | Inr st' \<Rightarrow> visit_inv nodes edges predecessors st' \<and> set done \<subseteq> set (snd st') \<and>
                   set (snd st) \<subseteq> set (snd st'))"

text \<open>Every visit of depth \<open>k\<close> that starts as \<open>visit_pre\<close> says ends as \<open>visit_post\<close> says.\<close>

definition visit_ok :: "nat \<Rightarrow> modid list \<Rightarrow> (modid \<times> modid) list \<Rightarrow> bool" where
  "visit_ok k nodes edges \<longleftrightarrow>
     (\<forall>predecessors node st.
        visit_pre k nodes edges predecessors node \<and> visit_inv nodes edges predecessors st \<longrightarrow>
        visit_post nodes edges predecessors [node] st (visit k nodes edges predecessors node st))"

section \<open>Scenarios\<close>

text \<open>A class with the given dependencies.\<close>

definition plain_class :: "modid list \<Rightarrow> module_class" where
  "plain_class deps = \<lparr>dependencies = deps, displayOrder = 0, mod_name = ''module''\<rparr>"

text \<open>Modules that never throw, normalise nothing and report their identifier.\<close>

definition quiet_env :: env where
  "quiet_env =
     \<lparr>construct = (\<lambda>h m. None), normalise = (\<lambda>h m es. Inr es),
      handleEvent = (\<lambda>h m ev. None), moduleOutput = (\<lambda>h m. Inr (Some m))\<rparr>"

text \<open>As \<open>quiet_env\<close>, but module \<open>x\<close> throws on every event of type \<open>ty\<close>.\<close>

definition throwing_env :: "modid \<Rightarrow> string \<Rightarrow> env" where
  "throwing_env x ty =
     quiet_env\<lparr>handleEvent :=
       (\<lambda>h m ev. if m = x \<and> ev_type ev = ty then Some (Exception ''boom'') else None)\<rparr>"

text \<open>Module \<open>c\<close> throws on every \<open>cast\<close> event and module \<open>d\<close> has no output.\<close>

definition reporting_env :: env where
  "reporting_env =
     (throwing_env ''c'' ''cast'')\<lparr>moduleOutput := (\<lambda>h m. if m = ''d'' then Inr None else Inr (Some m))\<rparr>"

text \<open>A real event, and the \<open>init\<close> event fabricated at the start of a fight that starts at \<open>0\<close>.\<close>

definition cast_event :: event where
  "cast_event = \<lparr>ev_type = ''cast'', timestamp = 10, trigger = None, fabricated = False\<rparr>"

definition init_event :: event where
  "init_event = \<lparr>ev_type = ''init'', timestamp = 0, trigger = None, fabricated = True\<rparr>"

text \<open>A new parser with the given core modules, and a whole run: construct the parser, build the
  modules, parse the events.\<close>

definition fresh_parser :: "(modid \<times> module_class) list \<Rightarrow> parser" where
  "fresh_parser cs = new_parser cs \<lparr>start_time = 0, end_time = 100\<rparr>"

definition run :: "env \<Rightarrow> (modid \<times> module_class) list \<Rightarrow> event list \<Rightarrow> outcome" where
  "run en cs evs =
     (case buildModules toposort_array en (fresh_parser cs) of
        Inl f \<Rightarrow> Inl f
      | Inr p \<Rightarrow> parseEvents en evs p)"

text \<open>Descriptor sets: two independent modules; a star \<open>b \<rightarrow> a \<leftarrow> c\<close>; a chain \<open>c \<rightarrow> b \<rightarrow> a\<close>; a
  cycle \<open>a \<rightarrow> b \<rightarrow> a\<close>; a diamond \<open>d \<rightarrow> b, c \<rightarrow> a\<close> beside an unrelated \<open>z\<close>; four modules with
  display priorities.\<close>

definition two_classes :: "(modid \<times> module_class) list" where
  "two_classes = [(''a'', plain_class []), (''b'', plain_class [])]"

definition star_classes :: "(modid \<times> module_class) list" where
  "star_classes = [(''a'', plain_class []), (''b'', plain_class [''a'']), (''c'', plain_class [''a''])]"

definition chain_classes :: "(modid \<times> module_class) list" where
  "chain_classes = [(''a'', plain_class []), (''b'', plain_class [''a'']), (''c'', plain_class [''b''])]"

definition loop_classes :: "(modid \<times> module_class) list" where
  "loop_classes = [(''a'', plain_class [''b'']), (''b'', plain_class [''a''])]"

text \<open>A cycle through three modules, \<open>a \<rightarrow> b \<rightarrow> c \<rightarrow> a\<close>.\<close>

definition ring_classes :: "(modid \<times> module_class) list" where
  "ring_classes =
     [(''a'', plain_class [''b'']), (''b'', plain_class [''c'']), (''c'', plain_class [''a''])]"

definition diamond_classes :: "(modid \<times> module_class) list" where
  "diamond_classes =
     [(''z'', plain_class []), (''a'', plain_class []), (''b'', plain_class [''a'']),
      (''c'', plain_class [''a'']), (''d'', plain_class [''b'', ''c''])]"

definition ranked_classes :: "(modid \<times> module_class) list" where
  "ranked_classes =
     [(''a'', \<lparr>dependencies = [], displayOrder = 2, mod_name = ''A''\<rparr>),
      (''b'', \<lparr>dependencies = [''a''], displayOrder = 1, mod_name = ''B''\<rparr>),
      (''c'', \<lparr>dependencies = [], displayOrder = 1, mod_name = ''C''\<rparr>),
      (''d'', \<lparr>dependencies = [], displayOrder = 1, mod_name = ''D''\<rparr>)]"

text \<open>The star, built; the star and the chain at the start of the trigger pass; the run of the
  modules with priorities, finished.\<close>

definition built_star :: parser where
  "built_star = state_of (buildModules toposort_array quiet_env (fresh_parser star_classes))"

definition started_star :: parser where
  "started_star = built_star\<lparr>triggerModules := moduleOrder built_star\<rparr>"

definition started_chain :: parser where
  "started_chain =
     (let p = state_of (buildModules toposort_array quiet_env (fresh_parser chain_classes))
      in p\<lparr>triggerModules := moduleOrder p\<rparr>)"

definition finished_run :: parser where
  "finished_run = state_of (run reporting_env ranked_classes [cast_event])"

section \<open>Auxiliary facts\<close>

subsection \<open>Arrays: indexOf and splice\<close>

lemma indexOf_mem: "m \<in> set xs \<Longrightarrow> indexOf xs m = int (length (takeWhile (\<lambda>x. x \<noteq> m) xs))"
  by (induction xs) (auto simp: Let_def)

lemma indexOf_notmem: "m \<notin> set xs \<Longrightarrow> indexOf xs m = - 1"
  by (induction xs) (auto simp: Let_def)

lemma remove1_take_drop: "m \<in> set xs \<Longrightarrow>
   take (length (takeWhile (\<lambda>x. x \<noteq> m) xs)) xs @ drop (Suc (length (takeWhile (\<lambda>x. x \<noteq> m) xs))) xs = remove1 m xs"
  by (induction xs) auto

lemma splice_indexOf: "splice_array (indexOf xs m) 1 xs = (if m \<in> set xs then remove1 m xs else butlast xs)"
proof (cases "m \<in> set xs")
  case True
  have "length (takeWhile (\<lambda>x. x \<noteq> m) xs) \<le> length xs" by (rule length_takeWhile_le)
  then show ?thesis using True
    by (simp add: splice_array_def indexOf_mem remove1_take_drop Let_def min_def)
next
  case False
  then show ?thesis
    by (cases xs rule: rev_cases) (auto simp: splice_array_def indexOf_notmem Let_def butlast_conv_take)
qed

lemma subseq_remove1: "subseq (remove1 m xs) xs"
  by (induction xs) auto

lemma subseq_butlast: "subseq (butlast xs) xs"
  by (induction xs) auto

lemma subseq_splice: "subseq (splice_array (indexOf xs m) 1 xs) xs"
  by (subst splice_indexOf) (simp add: subseq_remove1 subseq_butlast)

lemma splice_removes: "distinct xs \<Longrightarrow> m \<notin> set (splice_array (indexOf xs m) 1 xs)"
  by (subst splice_indexOf) (auto dest: in_set_butlastD)

lemmas splice_facts = subseq_splice[unfolded One_nat_def] splice_removes[unfolded One_nat_def]

lemma subseq_drop_both: "subseq xs ys \<Longrightarrow> subseq (drop n xs) (drop n ys)"
proof (induction xs ys arbitrary: n rule: list_emb.induct)
  case (list_emb_Nil ys)
  then show ?case by simp
next
  case (list_emb_Cons xs ys y)
  show ?case
  proof (cases n)
    case 0
    then show ?thesis using list_emb_Cons by auto
  next
    case (Suc k)
    have "subseq (drop k xs) (drop k ys)" using list_emb_Cons.IH by simp
    moreover have "subseq (drop (Suc k) xs) (drop k xs)"
      by (metis drop_Suc subseq_order.dual_order.refl list_emb_Cons subseq_Cons' tl_drop drop_Nil list.collapse list_emb_Nil)
    ultimately show ?thesis using Suc by (auto intro: subseq_order.trans)
  qed
next
  case (list_emb_Cons2 x y xs ys)
  then show ?case by (cases n) auto
qed

lemma subseq_distinct: "subseq xs ys \<Longrightarrow> distinct ys \<Longrightarrow> distinct xs"
  by (induction rule: list_emb.induct) (auto dest: list_emb_set)

subsection \<open>Iteration\<close>

lemma forEach_inv:
  assumes "Q p" and "\<And>x q. x \<in> set xs \<Longrightarrow> Q q \<Longrightarrow> Q (state_of (f x q))"
  shows "Q (state_of (forEach f xs p))"
  using assms
proof (induction xs arbitrary: p)
  case Nil
  then show ?case by (simp add: state_of_def)
next
  case (Cons x xs)
  show ?case
  proof (cases "f x p")
    case (Inl e)
    have "Q (state_of (f x p))" using Cons.prems by simp
    then show ?thesis using Inl by (simp add: state_of_def)
  next
    case (Inr p')
    have "Q p'" using Cons.prems(2)[of x p] Cons.prems(1) Inr by (simp add: state_of_def)
    then have "Q (state_of (forEach f xs p'))" using Cons.IH Cons.prems(2) by simp
    then show ?thesis using Inr by simp
  qed
qed

subsection \<open>Recording a failure\<close>

lemma same_modules_refl: "same_modules p p"
  by (simp add: same_modules_def)

lemma same_modules_trans: "same_modules p q \<Longrightarrow> same_modules q r \<Longrightarrow> same_modules p r"
  by (simp add: same_modules_def)

lemma shrinks_refl: "shrinks p p"
  by (simp add: shrinks_def)

lemma shrinks_trans: "shrinks p q \<Longrightarrow> shrinks q r \<Longrightarrow> shrinks p r"
  unfolding shrinks_def by (meson subseq_order.trans subset_trans)

lemma mark_failed_same: "same_modules p (mark_failed m err p)"
  by (simp add: same_modules_def mark_failed_def)

lemma mark_failed_shrinks: "shrinks p (mark_failed m err p)"
  by (auto simp: shrinks_def mark_failed_def splice_facts)

lemma mark_failed_isolated: "isolated p \<Longrightarrow> isolated (mark_failed m err p)"
  unfolding isolated_def mark_failed_def
  using subseq_splice[of "triggerModules p" m] splice_removes[of "triggerModules p" m]
  by (auto dest: subseq_distinct list_emb_set)

lemma setModuleError_Suc:
  "setModuleError (Suc n) m err p =
     forEach (\<lambda>(key, c) q. if m \<in> set (dependencies c)
                 then setModuleError n key (DependencyCascadeError m) q else Inr q)
       (constructors p) (mark_failed m err p)"
  by (simp add: mark_failed_def)

lemma setModuleError_evolves:
  "same_modules p (state_of (setModuleError n m err p)) \<and>
   shrinks p (state_of (setModuleError n m err p)) \<and>
   (isolated p \<longrightarrow> isolated (state_of (setModuleError n m err p)))"
proof (induction n arbitrary: m err p)
  case 0
  show ?case by (simp add: state_of_def same_modules_refl shrinks_refl)
next
  case (Suc n)
  let ?Q = "\<lambda>q. same_modules p q \<and> shrinks p q \<and> (isolated p \<longrightarrow> isolated q)"
  let ?f = "\<lambda>(key, c) q. if m \<in> set (dependencies c)
                 then setModuleError n key (DependencyCascadeError m) q else Inr q"
  have base: "?Q (mark_failed m err p)"
    by (simp add: mark_failed_same mark_failed_shrinks mark_failed_isolated)
  have step: "?Q (state_of (?f x q))" if "?Q q" for x q
  proof (cases x)
    case (Pair key c)
    show ?thesis
    proof (cases "m \<in> set (dependencies c)")
      case True
      then show ?thesis using that Pair Suc.IH[of q key "DependencyCascadeError m"]
        by (auto intro: same_modules_trans shrinks_trans)
    next
      case False
      then show ?thesis using that Pair by (simp add: state_of_def)
    qed
  qed
  have "?Q (state_of (forEach ?f (constructors p) (mark_failed m err p)))"
    by (rule forEach_inv[where Q = ?Q, OF base]) (rule step)
  then show ?case unfolding setModuleError_Suc .
qed

subsection \<open>Delivering an event\<close>

lemma same_build_refl: "same_build p p"
  by (simp add: same_build_def)

lemma same_build_trans: "same_build p q \<Longrightarrow> same_build q r \<Longrightarrow> same_build p r"
  by (simp add: same_build_def)

lemma same_modules_build: "same_modules p q \<Longrightarrow> same_build p q"
  by (simp add: same_modules_def same_build_def)

lemma callTriggerEvent_cases:
  obtains (missing) "modules p m = None" "callTriggerEvent en m ev p = (Some (Exception ''TypeError''), p)"
  | (called) i where "modules p m = Some i"
      "callTriggerEvent en m ev p = (handleEvent en (calls p) m ev, p\<lparr>calls := calls p @ [TriggerEvent m ev]\<rparr>)"
  by (cases "modules p m") (auto simp: callTriggerEvent_def)

lemma stackDepth_calls [simp]: "stackDepth (p\<lparr>calls := c\<rparr>) = stackDepth p"
  by (simp add: stackDepth_def)

lemma delivered_step:
  assumes "callTriggerEvent en m ev p = (Some e, p1)"
      and "q = state_of (setModuleError d m (Caught e) p1)"
  shows "\<exists>ms. (ms = [] \<or> ms = [m]) \<and> delivered ev ms p q"
proof -
  have ev: "same_modules p1 q" "shrinks p1 q" "isolated p1 \<longrightarrow> isolated q"
    using setModuleError_evolves[of p1 d m "Caught e"] assms(2) by auto
  show ?thesis
  proof (cases rule: callTriggerEvent_cases[of p m en ev])
    case missing
    then have "p1 = p" using assms(1) by simp
    then have "delivered ev [] p q" using ev
      by (auto simp: delivered_def same_modules_def same_build_def)
    then show ?thesis by blast
  next
    case (called i)
    then have p1: "p1 = p\<lparr>calls := calls p @ [TriggerEvent m ev]\<rparr>" using assms(1) by simp
    have "delivered ev [m] p q" using ev unfolding p1
      by (auto simp: delivered_def same_modules_def same_build_def shrinks_def isolated_def)
    then show ?thesis by blast
  qed
qed

lemma delivered_trans:
  "delivered ev ms p q \<Longrightarrow> delivered ev ms' q r \<Longrightarrow> delivered ev (ms @ ms') p r"
  unfolding delivered_def by (auto intro: same_build_trans shrinks_trans)

lemma delivered_refl: "delivered ev [] p p"
  by (simp add: delivered_def same_build_refl shrinks_refl)

lemma deliver_delivered:
  "\<exists>ms. delivered ev ms p (state_of (deliver en ev k n p)) \<and> subseq ms (drop k (triggerModules p))"
proof (induction n arbitrary: k p)
  case 0
  have "delivered ev [] p (state_of (deliver en ev k 0 p))" by (simp add: state_of_def delivered_refl)
  then show ?case by (metis list_emb_Nil)
next
  case (Suc n)
  show ?case
  proof (cases "k < length (triggerModules p)")
    case False
    then show ?thesis using Suc.IH[of p "Suc k"] by simp
  next
    case True
    let ?m = "triggerModules p ! k"
    have dr: "drop k (triggerModules p) = ?m # drop (Suc k) (triggerModules p)"
      using True by (simp add: Cons_nth_drop_Suc)
    obtain r p1 where c: "callTriggerEvent en ?m ev p = (r, p1)" by (cases "callTriggerEvent en ?m ev p")
    show ?thesis
    proof (cases r)
      case None
      then have p1: "p1 = p\<lparr>calls := calls p @ [TriggerEvent ?m ev]\<rparr>"
        using c by (cases rule: callTriggerEvent_cases[of p ?m en ev]) auto
      have d1: "delivered ev [?m] p p1" unfolding p1
        by (auto simp: delivered_def same_build_def shrinks_def isolated_def)
      obtain ms where ms: "delivered ev ms p1 (state_of (deliver en ev (Suc k) n p1))"
          "subseq ms (drop (Suc k) (triggerModules p1))" using Suc.IH[of p1 "Suc k"] by blast
      have eq: "deliver en ev k (Suc n) p = deliver en ev (Suc k) n p1"
        using True c None by (simp add: Let_def)
      have "delivered ev ([?m] @ ms) p (state_of (deliver en ev k (Suc n) p))"
        unfolding eq using d1 ms(1) by (rule delivered_trans)
      moreover have "subseq ([?m] @ ms) (drop k (triggerModules p))"
        using ms(2) dr by (simp add: p1)
      ultimately show ?thesis by blast
    next
      case (Some e)
      let ?s = "setModuleError (stackDepth p1) ?m (Caught e) p1"
      obtain ms0 where ms0: "ms0 = [] \<or> ms0 = [?m]" "delivered ev ms0 p (state_of ?s)"
        using delivered_step[OF c[unfolded Some] refl] by blast
      have sub0: "subseq (triggerModules (state_of ?s)) (triggerModules p)"
        using ms0(2) by (simp add: delivered_def shrinks_def)
      show ?thesis
      proof (cases ?s)
        case (Inl f)
        have eq: "deliver en ev k (Suc n) p = ?s"
          using True c Some Inl by (simp add: Let_def)
        have "subseq ms0 (drop k (triggerModules p))" using ms0(1) dr by auto
        then show ?thesis unfolding eq using ms0(2) by blast
      next
        case (Inr p2)
        then have p2: "state_of ?s = p2" by (simp add: state_of_def)
        obtain ms where ms: "delivered ev ms p2 (state_of (deliver en ev (Suc k) n p2))"
          "subseq ms (drop (Suc k) (triggerModules p2))" using Suc.IH[of p2 "Suc k"] by blast
        have eq: "deliver en ev k (Suc n) p = deliver en ev (Suc k) n p2"
          using True c Some Inr by (simp add: Let_def)
        have "subseq ms (drop (Suc k) (triggerModules p))"
          using ms(2) subseq_drop_both[OF sub0[unfolded p2], of "Suc k"] by (rule subseq_order.trans)
        then have "subseq (ms0 @ ms) (drop k (triggerModules p))"
          using ms0(1) dr by auto
        moreover have "delivered ev (ms0 @ ms) p (state_of (deliver en ev k (Suc n) p))"
          unfolding eq using ms0(2)[unfolded p2] ms(1) by (rule delivered_trans)
        ultimately show ?thesis by blast
      qed
    qed
  qed
qed

subsection \<open>Positions in an order\<close>

lemma indexOf_nonneg: "m \<in> set xs \<longleftrightarrow> 0 \<le> indexOf xs m"
  by (cases "m \<in> set xs") (simp_all add: indexOf_mem indexOf_notmem)

lemma indexOf_less: "indexOf xs m < int (length xs)"
proof (cases "m \<in> set xs")
  case True
  have "length (takeWhile (\<lambda>x. x \<noteq> m) xs) < length xs"
    using True by (induction xs) auto
  then show ?thesis using True by (simp add: indexOf_mem)
next
  case False then show ?thesis by (simp add: indexOf_notmem)
qed

lemma nth_takeWhile_neq: "m \<in> set xs \<Longrightarrow> xs ! length (takeWhile (\<lambda>x. x \<noteq> m) xs) = m"
  by (induction xs) auto

lemma nth_indexOf: "m \<in> set xs \<Longrightarrow> xs ! nat (indexOf xs m) = m"
  by (simp add: indexOf_mem nth_takeWhile_neq)

lemma indexOf_nth: "distinct xs \<Longrightarrow> i < length xs \<Longrightarrow> indexOf xs (xs ! i) = int i"
proof (induction xs arbitrary: i)
  case Nil then show ?case by simp
next
  case (Cons x xs)
  show ?case
  proof (cases i)
    case 0 then show ?thesis by simp
  next
    case (Suc j)
    then have "xs ! j \<noteq> x" using Cons.prems by auto
    then show ?thesis using Suc Cons by (auto simp: Let_def)
  qed
qed

lemma indexOf_rev:
  assumes "distinct xs" "m \<in> set xs"
  shows "indexOf (rev xs) m = int (length xs) - 1 - indexOf xs m"
proof -
  let ?i = "nat (indexOf xs m)"
  have i: "?i < length xs" "int ?i = indexOf xs m"
    using indexOf_less[of xs m] indexOf_nonneg[of m xs] assms(2) by auto
  have "rev xs ! (length xs - 1 - ?i) = xs ! ?i"
    using i(1) by (simp add: rev_nth)
  then have "rev xs ! (length xs - 1 - ?i) = m" by (simp add: nth_indexOf assms(2))
  moreover have "indexOf (rev xs) (rev xs ! (length xs - 1 - ?i)) = int (length xs - 1 - ?i)"
    using assms(1) i(1) by (intro indexOf_nth) auto
  ultimately have "indexOf (rev xs) m = int (length xs - 1 - ?i)" by simp
  then show ?thesis using i by linarith
qed

lemma before_rev:
  assumes "distinct xs" "before xs a b" 
  shows "before (rev xs) b a"
proof -
  have a: "a \<in> set xs" using assms(2) by (simp add: before_def indexOf_nonneg)
  have b: "b \<in> set xs" using assms(2) by (simp add: before_def indexOf_nonneg)
  show ?thesis using assms indexOf_rev[OF assms(1) a] indexOf_rev[OF assms(1) b] indexOf_less[of xs b]
    by (simp add: before_def)
qed

lemma before_trancl:
  assumes "\<forall>e \<in> set edges. before order (fst e) (snd e)" "(a, b) \<in> (set edges)\<^sup>+"
  shows "before order a b"
  using assms(2)
proof (induction rule: trancl_induct)
  case (base b)
  then show ?case using assms(1) by force
next
  case (step b c)
  then have "before order b c" using assms(1) by force
  then show ?case using step.IH by (simp add: before_def)
qed

lemma ordered_not_cyclic:
  assumes "\<forall>e \<in> set edges. before order (fst e) (snd e)"
  shows "\<not> cyclic edges"
  using before_trancl[OF assms] by (fastforce simp: cyclic_def before_def)

lemma cyclic_iff: "cyclic edges \<longleftrightarrow> (\<exists>a. (a, a) \<in> (set edges)\<^sup>+)"
proof
  assume "cyclic edges" then show "\<exists>a. (a, a) \<in> (set edges)\<^sup>+" by (auto simp: cyclic_def)
next
  assume "\<exists>a. (a, a) \<in> (set edges)\<^sup>+"
  then obtain a where a: "(a, a) \<in> (set edges)\<^sup>+" by blast
  then obtain b where "(a, b) \<in> set edges" by (meson converse_tranclE)
  then show "cyclic edges" using a unfolding cyclic_def by (intro bexI[of _ "(a, b)"]) simp_all
qed

subsection \<open>Building the modules\<close>

lemma edges_of_iff: "(m, d) \<in> set (edges_of cs) \<longleftrightarrow> (\<exists>c. (m, c) \<in> set cs \<and> d \<in> set (dependencies c))"
  by (auto simp: edges_of_def)

lemma initModule_keeps:
  "moduleOrder (state_of (initModule en m p)) = moduleOrder p \<and>
   constructors (state_of (initModule en m p)) = constructors p \<and>
   triggerModules (state_of (initModule en m p)) = triggerModules p \<and>
   moduleErrors (state_of (initModule en m p)) = moduleErrors p \<and>
   the_fight (state_of (initModule en m p)) = the_fight p \<and>
   cur_timestamp (state_of (initModule en m p)) = cur_timestamp p"
  by (auto simp: initModule_def state_of_def Let_def split: option.splits)

lemma forEach_initModule_keeps:
  "moduleOrder (state_of (forEach (initModule en) ms p)) = moduleOrder p \<and>
   constructors (state_of (forEach (initModule en) ms p)) = constructors p \<and>
   triggerModules (state_of (forEach (initModule en) ms p)) = triggerModules p \<and>
   moduleErrors (state_of (forEach (initModule en) ms p)) = moduleErrors p \<and>
   the_fight (state_of (forEach (initModule en) ms p)) = the_fight p \<and>
   cur_timestamp (state_of (forEach (initModule en) ms p)) = cur_timestamp p"
  by (rule forEach_inv[where Q = "\<lambda>q. moduleOrder q = moduleOrder p \<and> constructors q = constructors p \<and>
        triggerModules q = triggerModules p \<and> moduleErrors q = moduleErrors p \<and>
        the_fight q = the_fight p \<and> cur_timestamp q = cur_timestamp p"])
     (simp_all add: initModule_keeps)

lemma initModule_Inr:
  "initModule en m p = Inr q \<Longrightarrow> modules q m \<noteq> None \<and> (\<forall>x. modules p x \<noteq> None \<longrightarrow> modules q x \<noteq> None)"
  by (auto simp: initModule_def Let_def split: option.splits)

lemma forEach_initModule_Inr:
  "forEach (initModule en) ms p = Inr q \<Longrightarrow>
     (\<forall>x. x \<in> set ms \<or> modules p x \<noteq> None \<longrightarrow> modules q x \<noteq> None)"
proof (induction ms arbitrary: p)
  case Nil then show ?case by simp
next
  case (Cons m ms)
  then obtain p1 where p1: "initModule en m p = Inr p1" "forEach (initModule en) ms p1 = Inr q"
    by (auto split: sum.splits)
  show ?case using Cons.IH[OF p1(2)] initModule_Inr[OF p1(1)] by auto
qed

lemma buildModules_order:
  assumes "toposort_contract ts (nodes_of (constructors p)) (edges_of (constructors p))"
      and "ts (nodes_of (constructors p)) (edges_of (constructors p)) = Inr srt"
  shows "moduleOrder (state_of (buildModules ts en p)) = rev srt"
    and "constructors (state_of (buildModules ts en p)) = constructors p"
    and "dependency_order (constructors p) (rev srt)"
proof -
  let ?p1 = "p\<lparr>moduleOrder := rev srt\<rparr>"
  have eq: "buildModules ts en p = forEach (initModule en) (rev srt) ?p1"
    using assms(2) by (simp add: buildModules_def Let_def)
  show "moduleOrder (state_of (buildModules ts en p)) = rev srt"
    unfolding eq using forEach_initModule_keeps[of en "rev srt" ?p1] by simp
  show "constructors (state_of (buildModules ts en p)) = constructors p"
    unfolding eq using forEach_initModule_keeps[of en "rev srt" ?p1] by simp
  have c: "distinct srt" "set srt = set (nodes_of (constructors p))"
     "\<forall>e \<in> set (edges_of (constructors p)). before srt (fst e) (snd e)"
    using assms by (simp_all add: toposort_contract_def)
  have "before (rev srt) d m" if "(m, c) \<in> set (constructors p)" "d \<in> set (dependencies c)" for m c d
  proof -
    have "(m, d) \<in> set (edges_of (constructors p))" using that by (auto simp: edges_of_iff)
    then have "before srt m d" using c(3) by force
    then show ?thesis using before_rev[OF c(1)] by simp
  qed
  then show "dependency_order (constructors p) (rev srt)"
    using c(1,2) by (auto simp: dependency_order_def)
qed

lemma contract_names_cycle:
  assumes "toposort_contract ts nodes edges" "known_ends nodes edges" "ts nodes edges = Inl e"
  shows "\<exists>n. e = CyclicDependency n \<and> on_cycle edges n"
  using assms by (cases e) (auto simp: toposort_contract_def)

lemma contract_acyclic:
  assumes "toposort_contract ts nodes edges" "known_ends nodes edges" "\<not> cyclic edges"
  shows "\<exists>srt. ts nodes edges = Inr srt"
proof (cases "ts nodes edges")
  case (Inl e)
  then obtain n where "on_cycle edges n" using contract_names_cycle[OF assms(1,2)] by blast
  then show ?thesis using assms(3) by (auto simp: cyclic_iff on_cycle_def)
next
  case (Inr srt) then show ?thesis by simp
qed

lemma contract_cyclic:
  assumes "toposort_contract ts nodes edges" "cyclic edges"
  shows "\<exists>e. ts nodes edges = Inl e"
proof (cases "ts nodes edges")
  case (Inl e) then show ?thesis by simp
next
  case (Inr srt)
  then have "\<forall>e \<in> set edges. before srt (fst e) (snd e)"
    using assms(1) by (simp add: toposort_contract_def)
  then show ?thesis using ordered_not_cyclic assms(2) by blast
qed

subsection \<open>The star and the cycle\<close>

lemma star_acyclic: "\<not> cyclic (edges_of (constructors (fresh_parser star_classes)))"
  by (rule ordered_not_cyclic[where order = "[''b'', ''c'', ''a'']"]) code_simp

lemma star_sorted: "toposort_array (nodes_of (constructors (fresh_parser star_classes)))
             (edges_of (constructors (fresh_parser star_classes))) = Inr [''b'', ''c'', ''a'']"
  by code_simp

lemma star_contract: "toposort_contract toposort_array (nodes_of (constructors (fresh_parser star_classes)))
             (edges_of (constructors (fresh_parser star_classes)))"
  unfolding toposort_contract_def by (simp only: star_sorted sum.case) code_simp

lemma star_known: "known_ends (nodes_of (constructors (fresh_parser star_classes)))
             (edges_of (constructors (fresh_parser star_classes)))"
  by code_simp

lemma loop_edges: "edges_of (constructors (fresh_parser loop_classes)) = [(''a'', ''b''), (''b'', ''a'')]"
  by code_simp

lemma loop_cyclic: "cyclic (edges_of (constructors (fresh_parser loop_classes)))"
proof -
  have "(''a'', ''a'') \<in> (set [(''a'', ''b''), (''b'', ''a'')])\<^sup>+"
    by (rule trancl_into_trancl[of _ "''b''"]) (simp_all add: r_into_trancl)
  then show ?thesis unfolding loop_edges cyclic_def by (intro bexI[of _ "(''a'', ''b'')"]) simp_all
qed

lemma loop_sorted: "toposort_array (nodes_of (constructors (fresh_parser loop_classes)))
     (edges_of (constructors (fresh_parser loop_classes))) = Inl (CyclicDependency ''b'')"
  by code_simp

lemma loop_on_cycle: "on_cycle (edges_of (constructors (fresh_parser loop_classes))) ''b''"
proof -
  have "(''b'', ''b'') \<in> (set [(''a'', ''b''), (''b'', ''a'')])\<^sup>+"
    by (rule trancl_into_trancl[of _ "''a''"]) (simp_all add: r_into_trancl)
  then show ?thesis by (simp add: on_cycle_def loop_edges)
qed

lemma loop_known: "known_ends (nodes_of (constructors (fresh_parser loop_classes)))
     (edges_of (constructors (fresh_parser loop_classes)))"
  by code_simp

lemma loop_contract: "toposort_contract toposort_array (nodes_of (constructors (fresh_parser loop_classes)))
     (edges_of (constructors (fresh_parser loop_classes)))"
  unfolding toposort_contract_def by (simp only: loop_sorted sum.case thrown.case loop_on_cycle)

subsection \<open>The trigger pass\<close>

lemma trigger_steps_refl: "trigger_steps p p"
  by (simp add: trigger_steps_def same_build_refl shrinks_refl)

lemma trigger_steps_trans: "trigger_steps p q \<Longrightarrow> trigger_steps q r \<Longrightarrow> trigger_steps p r"
  unfolding trigger_steps_def
  by (auto intro: same_build_trans shrinks_trans)

lemma delivered_trigger_steps: "delivered ev ms p q \<Longrightarrow> trigger_steps p q"
  by (auto simp: delivered_def trigger_steps_def list_all_iff)

lemma triggerEvent_delivered:
  "\<exists>ms. delivered ev ms p (state_of (triggerEvent en ev p)) \<and> subseq ms (triggerModules p)"
  using deliver_delivered[of ev p en 0 "length (triggerModules p)"] by (simp add: triggerEvent_def)

lemma triggerEvent_steps: "trigger_steps p (state_of (triggerEvent en ev p))"
  using triggerEvent_delivered[of ev p en] delivered_trigger_steps by blast

lemma fabricateEvent_steps: "trigger_steps p (state_of (fabricateEvent en pr trig p))"
  by (simp add: fabricateEvent_def triggerEvent_steps)

lemma analyse_steps: "trigger_steps p (state_of (analyse en ev p))"
proof -
  let ?p = "p\<lparr>cur_timestamp := timestamp ev\<rparr>"
  have "trigger_steps p ?p"
    by (simp add: trigger_steps_def same_build_def shrinks_def isolated_def)
  moreover have "trigger_steps ?p (state_of (triggerEvent en ev ?p))" by (rule triggerEvent_steps)
  ultimately show ?thesis unfolding analyse_def by (rule trigger_steps_trans)
qed

lemma forEach_analyse_steps: "trigger_steps p (state_of (forEach (analyse en) evs p))"
  by (rule forEach_inv[where Q = "trigger_steps p"])
     (auto intro: trigger_steps_refl trigger_steps_trans analyse_steps)

lemma state_of_Inr [simp]: "state_of (Inr p) = p"
  by (simp add: state_of_def)

lemma state_of_Inl [simp]: "state_of (Inl (f, p)) = p"
  by (simp add: state_of_def)

lemma state_of_eq: "r = Inl f \<Longrightarrow> state_of r = snd f"
  by (cases f) simp

lemma trigger_phase_steps: "trigger_steps p (state_of (trigger_phase en evs p))"
proof (cases "fabricateEvent en (props ''init'') None p")
  case (Inl f)
  then show ?thesis using fabricateEvent_steps[of p en "props ''init''" None]
    by (simp add: trigger_phase_def)
next
  case (Inr p3)
  then have 1: "trigger_steps p p3" using fabricateEvent_steps[of p en "props ''init''" None] by simp
  show ?thesis
  proof (cases "forEach (analyse en) evs p3")
    case (Inl f)
    then show ?thesis using forEach_analyse_steps[of p3 en evs] 1 Inr
      by (auto simp: trigger_phase_def intro: trigger_steps_trans)
  next
    case (Inr p4)
    then have "trigger_steps p3 p4" using forEach_analyse_steps[of p3 en evs] by simp
    moreover have "trigger_steps p4 (state_of (fabricateEvent en (props ''complete'') None p4))"
      by (rule fabricateEvent_steps)
    ultimately show ?thesis using 1 Inr \<open>fabricateEvent en (props ''init'') None p = Inr p3\<close>
      by (auto simp: trigger_phase_def intro: trigger_steps_trans)
  qed
qed

lemma parseEvents_phases:
  "parseEvents en events p =
     (case runNormalisers en (moduleOrder p) events p of
        Inl f \<Rightarrow> Inl f
      | Inr (events', p1) \<Rightarrow> trigger_phase en events' (p1\<lparr>triggerModules := moduleOrder p1\<rparr>))"
  by (simp add: parseEvents_def trigger_phase_def Let_def split: sum.splits prod.splits)

subsection \<open>The normalisers and the built parser\<close>

lemma runNormalisers_calls:
  assumes "\<forall>m \<in> set ms. modules p m \<noteq> None"
  shows "\<exists>ncalls. 
     (case runNormalisers en ms evs p of
        Inr (evs', p1) \<Rightarrow> p1 = p\<lparr>calls := calls p @ ncalls\<rparr> \<and> map call_module ncalls = ms \<and>
            chained en (calls p) evs ncalls = Some (Inr evs')
      | Inl (f, p1) \<Rightarrow> p1 = p\<lparr>calls := calls p @ ncalls\<rparr> \<and> prefix (map call_module ncalls) ms \<and>
            (\<exists>e. f = Uncaught e \<and> chained en (calls p) evs ncalls = Some (Inl e)))"
  using assms
proof (induction ms arbitrary: evs p)
  case Nil
  show ?case by (rule exI[of _ "[]"]) simp
next
  case (Cons m ms)
  then obtain i where i: "modules p m = Some i" by auto
  let ?p1 = "p\<lparr>calls := calls p @ [Normalise m evs]\<rparr>"
  show ?case
  proof (cases "normalise en (calls p) m evs")
    case (Inl e)
    show ?thesis by (rule exI[of _ "[Normalise m evs]"]) (simp add: i Inl Let_def)
  next
    case (Inr evs')
    have "\<forall>m \<in> set ms. modules ?p1 m \<noteq> None" using Cons.prems by simp
    from Cons.IH[OF this, of evs'] obtain ncalls where n:
      "(case runNormalisers en ms evs' ?p1 of
        Inr (evs'', p1) \<Rightarrow> p1 = ?p1\<lparr>calls := calls ?p1 @ ncalls\<rparr> \<and> map call_module ncalls = ms \<and>
            chained en (calls ?p1) evs' ncalls = Some (Inr evs'')
      | Inl (f, p1) \<Rightarrow> p1 = ?p1\<lparr>calls := calls ?p1 @ ncalls\<rparr> \<and> prefix (map call_module ncalls) ms \<and>
            (\<exists>e. f = Uncaught e \<and> chained en (calls ?p1) evs' ncalls = Some (Inl e)))" by blast
    have eq: "runNormalisers en (m # ms) evs p = runNormalisers en ms evs' ?p1"
      by (simp add: i Inr Let_def)
    show ?thesis
      by (rule exI[of _ "Normalise m evs # ncalls"])
         (use n Inr in \<open>auto simp: eq simp del: runNormalisers.simps split: sum.splits prod.splits\<close>)
  qed
qed

lemma succeeded_Inr: "succeeded r \<Longrightarrow> r = Inr (state_of r)"
  by (cases r) (auto simp: succeeded_def)

lemma built_star_Inr: "buildModules toposort_array quiet_env (fresh_parser star_classes) = Inr built_star"
  unfolding built_star_def by (rule succeeded_Inr) code_simp

lemma built_star_modules: "\<forall>m \<in> set (moduleOrder built_star). modules built_star m \<noteq> None"
  by code_simp

lemma runNormalisers_state:
  "runNormalisers en ms evs p = Inr (evs', p1) \<Longrightarrow> \<exists>cs. p1 = p\<lparr>calls := cs\<rparr>"
proof (induction ms arbitrary: evs p)
  case Nil
  then have "p1 = p\<lparr>calls := calls p\<rparr>" by simp
  then show ?case by blast
next
  case (Cons m ms)
  then obtain i evs2 where 1: "modules p m = Some i" "normalise en (calls p) m evs = Inr evs2"
     "runNormalisers en ms evs2 (p\<lparr>calls := calls p @ [Normalise m evs]\<rparr>) = Inr (evs', p1)"
    by (auto simp: Let_def split: option.splits sum.splits)
  from Cons.IH[OF 1(3)] obtain cs where "p1 = p\<lparr>calls := calls p @ [Normalise m evs]\<rparr>\<lparr>calls := cs\<rparr>" by blast
  then have "p1 = p\<lparr>calls := cs\<rparr>" by simp
  then show ?case by blast
qed

lemma new_parser_fields:
  "moduleErrors (new_parser dm f) = Map.empty" "triggerModules (new_parser dm f) = []"
  "modules (new_parser dm f) = Map.empty" "calls (new_parser dm f) = []" "moduleOrder (new_parser dm f) = []"
  by (simp_all add: new_parser_def addModules_def)

lemma buildModules_Inr:
  assumes "toposort_contract ts (nodes_of (constructors p0)) (edges_of (constructors p0))"
      and "buildModules ts en p0 = Inr p"
  shows "dependency_order (constructors p) (moduleOrder p)"
    and "\<forall>m \<in> set (moduleOrder p). modules p m \<noteq> None"
    and "moduleErrors p = moduleErrors p0" and "triggerModules p = triggerModules p0"
    and "constructors p = constructors p0"
proof -
  obtain srt where srt: "ts (nodes_of (constructors p0)) (edges_of (constructors p0)) = Inr srt"
    using assms(2) by (cases "ts (nodes_of (constructors p0)) (edges_of (constructors p0))")
       (auto simp: buildModules_def Let_def)
  have st: "state_of (buildModules ts en p0) = p" using assms(2) by simp
  note o1 = buildModules_order(1)[OF assms(1) srt, of en, unfolded st]
  note o2 = buildModules_order(2)[OF assms(1) srt, of en, unfolded st]
  note o3 = buildModules_order(3)[OF assms(1) srt]
  show "constructors p = constructors p0" by (rule o2)
  show "dependency_order (constructors p) (moduleOrder p)" using o1 o2 o3 by simp
  let ?p1 = "p0\<lparr>moduleOrder := rev srt\<rparr>"
  have eq: "forEach (initModule en) (rev srt) ?p1 = Inr p"
    using assms(2) srt by (simp add: buildModules_def Let_def)
  show "\<forall>m \<in> set (moduleOrder p). modules p m \<noteq> None"
    using forEach_initModule_Inr[OF eq] o1 by auto
  have "state_of (forEach (initModule en) (rev srt) ?p1) = p" using eq by simp
  then show "moduleErrors p = moduleErrors p0" "triggerModules p = triggerModules p0"
    using forEach_initModule_keeps[of en "rev srt" ?p1] by auto
qed

lemma star_normalised:
  "\<exists>evs' p1. runNormalisers (throwing_env ''a'' ''cast'') (moduleOrder built_star) [cast_event] built_star
      = Inr (evs', p1)"
proof -
  have "case runNormalisers (throwing_env ''a'' ''cast'') (moduleOrder built_star) [cast_event] built_star of
          Inl f \<Rightarrow> False | Inr r \<Rightarrow> True" by code_simp
  then show ?thesis by (auto split: sum.splits)
qed

subsection \<open>A delivery that removes no module\<close>

lemma mark_failed_length:
  "triggerModules p \<noteq> [] \<Longrightarrow> length (triggerModules (mark_failed m err p)) < length (triggerModules p)"
  unfolding mark_failed_def
  by (simp del: One_nat_def add: splice_indexOf length_remove1)

lemma shrinks_length: "shrinks p q \<Longrightarrow> length (triggerModules q) \<le> length (triggerModules p)"
  by (auto simp: shrinks_def dest: list_emb_length)

lemma setModuleError_length:
  assumes "triggerModules p \<noteq> []"
  shows "length (triggerModules (state_of (setModuleError (Suc n) m err p))) < length (triggerModules p)"
proof -
  let ?f = "\<lambda>(key, c) q. if m \<in> set (dependencies c)
                 then setModuleError n key (DependencyCascadeError m) q else Inr q"
  have step: "shrinks (mark_failed m err p) (state_of (?f x q))" if "shrinks (mark_failed m err p) q" for x q
    using that setModuleError_evolves[of q n "fst x" "DependencyCascadeError m"]
    by (cases x) (auto intro: shrinks_trans)
  have "shrinks (mark_failed m err p) (state_of (forEach ?f (constructors p) (mark_failed m err p)))"
    by (rule forEach_inv[where Q = "shrinks (mark_failed m err p)", OF shrinks_refl]) (rule step)
  then have "length (triggerModules (state_of (setModuleError (Suc n) m err p)))
        \<le> length (triggerModules (mark_failed m err p))"
    unfolding setModuleError_Suc by (rule shrinks_length)
  then show ?thesis using mark_failed_length[OF assms, of m err] by simp
qed

lemma deliver_shrinks: "shrinks p (state_of (deliver en ev k n p))"
  using deliver_delivered[of ev p en k n] by (auto simp: delivered_def)

lemma deliver_complete:
  "length (triggerModules (state_of (deliver en ev k n p))) = length (triggerModules p) \<Longrightarrow>
   calls (state_of (deliver en ev k n p)) =
     calls p @ map (\<lambda>m. TriggerEvent m ev) (take n (drop k (triggerModules p))) \<and>
   triggerModules (state_of (deliver en ev k n p)) = triggerModules p"
proof (induction n arbitrary: k p)
  case 0
  then show ?case by simp
next
  case (Suc n)
  show ?case
  proof (cases "k < length (triggerModules p)")
    case False
    then show ?thesis using Suc.IH[of "Suc k" p] Suc.prems by simp
  next
    case True
    let ?m = "triggerModules p ! k"
    have dr: "drop k (triggerModules p) = ?m # drop (Suc k) (triggerModules p)"
      using True by (simp add: Cons_nth_drop_Suc)
    obtain r p1 where c: "callTriggerEvent en ?m ev p = (r, p1)" by (cases "callTriggerEvent en ?m ev p")
    have p1: "triggerModules p1 = triggerModules p" "stackDepth p1 = stackDepth p"
      using c by (cases rule: callTriggerEvent_cases[of p ?m en ev]; auto)+
    show ?thesis
    proof (cases r)
      case None
      then have p1c: "p1 = p\<lparr>calls := calls p @ [TriggerEvent ?m ev]\<rparr>"
        using c by (cases rule: callTriggerEvent_cases[of p ?m en ev]) auto
      have eq: "deliver en ev k (Suc n) p = deliver en ev (Suc k) n p1"
        using True c None by (simp add: Let_def)
      show ?thesis using Suc.IH[of "Suc k" p1] Suc.prems unfolding eq
        by (simp add: p1c dr)
    next
      case (Some e)
      let ?s = "setModuleError (stackDepth p1) ?m (Caught e) p1"
      have ne: "triggerModules p1 \<noteq> []" using True p1 by auto
      have "length (triggerModules (state_of (setModuleError (Suc (length (constructors p1))) ?m (Caught e) p1)))
               < length (triggerModules p1)"
        by (rule setModuleError_length[OF ne])
      then have lt: "length (triggerModules (state_of ?s)) < length (triggerModules p)"
        by (simp only: stackDepth_def p1(1))
      have "length (triggerModules (state_of (deliver en ev k (Suc n) p))) < length (triggerModules p)"
      proof (cases ?s)
        case (Inl f)
        have eq: "deliver en ev k (Suc n) p = ?s"
          using True c Some Inl by (simp add: Let_def)
        show ?thesis unfolding eq by (rule lt)
      next
        case (Inr p2)
        have eq: "deliver en ev k (Suc n) p = deliver en ev (Suc k) n p2"
          using True c Some Inr by (simp add: Let_def)
        have "length (triggerModules (state_of (deliver en ev (Suc k) n p2))) \<le> length (triggerModules p2)"
          by (rule shrinks_length[OF deliver_shrinks])
        then show ?thesis unfolding eq using lt Inr by simp
      qed
      then show ?thesis using Suc.prems by simp
    qed
  qed
qed

lemma triggerEvent_recipients:
  "\<exists>ms. calls (state_of (triggerEvent en ev p)) = calls p @ map (\<lambda>m. TriggerEvent m ev) ms \<and>
        subseq ms (triggerModules p) \<and>
        (triggerModules (state_of (triggerEvent en ev p)) = triggerModules p \<longrightarrow> ms = triggerModules p)"
proof -
  obtain ms where ms: "delivered ev ms p (state_of (triggerEvent en ev p))" "subseq ms (triggerModules p)"
    using triggerEvent_delivered by blast
  have c: "calls (state_of (triggerEvent en ev p)) = calls p @ map (\<lambda>m. TriggerEvent m ev) ms"
    using ms(1) by (simp add: delivered_def)
  have "ms = triggerModules p" if "triggerModules (state_of (triggerEvent en ev p)) = triggerModules p"
  proof -
    have "calls (state_of (triggerEvent en ev p)) = calls p @ map (\<lambda>m. TriggerEvent m ev) (triggerModules p)"
      using deliver_complete[of en ev 0 "length (triggerModules p)" p] that
      by (simp add: triggerEvent_def)
    then have "map (\<lambda>m. TriggerEvent m ev) ms = map (\<lambda>m. TriggerEvent m ev) (triggerModules p)"
      using c by simp
    moreover have "inj (\<lambda>m. TriggerEvent m ev)" by (simp add: inj_def)
    ultimately show ?thesis by (simp add: inj_map_eq_map)
  qed
  then show ?thesis using c ms(2) by blast
qed

subsection \<open>The report\<close>

lemma collectResults_report:
  assumes "\<forall>m \<in> set ms. modules p m \<noteq> None"
  shows "case report en p h ms of
           Inl e \<Rightarrow> (\<exists>q. collectResults en ms (acc, p\<lparr>calls := h\<rparr>) = Inl (Uncaught e, q))
         | Inr es \<Rightarrow> collectResults en ms (acc, p\<lparr>calls := h\<rparr>)
                      = Inr (acc @ es, p\<lparr>calls := h @ output_calls p ms\<rparr>)"
  using assms
proof (induction ms arbitrary: acc h)
  case Nil
  then show ?case by (simp add: output_calls_def)
next
  case (Cons m ms)
  then obtain i where i: "modules p m = Some i" by auto
  have n: "name_of p m = mod_name (inst_class i)" by (simp add: name_of_def i)
  have rest: "\<forall>m \<in> set ms. modules p m \<noteq> None" using Cons.prems by simp
  show ?case
  proof (cases "moduleErrors p m")
    case (Some err)
    have r: "resultOf en m (acc, p\<lparr>calls := h\<rparr>) = Inr (acc @ [(name_of p m, ErrorMessage err)], p\<lparr>calls := h\<rparr>)"
      by (simp add: resultOf_def i Some n)
    show ?thesis
      using Cons.IH[OF rest, where h = h and acc = "acc @ [(name_of p m, ErrorMessage err)]"]
      by (auto simp: r Some with_entry_def output_calls_def split: sum.splits)
  next
    case None
    show ?thesis
    proof (cases "moduleOutput en h m")
      case (Inl e)
      then show ?thesis by (simp add: resultOf_def i None Let_def)
    next
      case (Inr out)
      show ?thesis
      proof (cases out)
        case None': None
        have r: "resultOf en m (acc, p\<lparr>calls := h\<rparr>) = Inr (acc, p\<lparr>calls := h @ [Output m]\<rparr>)"
          by (simp add: resultOf_def i None Inr None' Let_def)
        show ?thesis
          using Cons.IH[OF rest, where h = "h @ [Output m]" and acc = acc]
          by (auto simp: r None Inr None' output_calls_def split: sum.splits)
      next
        case (Some out')
        have r: "resultOf en m (acc, p\<lparr>calls := h\<rparr>)
                 = Inr (acc @ [(name_of p m, Markup out')], p\<lparr>calls := h @ [Output m]\<rparr>)"
          by (simp add: resultOf_def i None Inr Some Let_def n)
        show ?thesis
          using Cons.IH[OF rest, where h = "h @ [Output m]" and acc = "acc @ [(name_of p m, Markup out')]"]
          by (auto simp: r None Inr Some with_entry_def output_calls_def split: sum.splits)
      qed
    qed
  qed
qed

lemma report_cong:
  "moduleErrors p' = moduleErrors p \<Longrightarrow> modules p' = modules p \<Longrightarrow> report en p' h ms = report en p h ms"
  by (induction ms arbitrary: h) (auto simp: name_of_def split: option.splits sum.splits)

lemma output_calls_cong: "moduleErrors p' = moduleErrors p \<Longrightarrow> output_calls p' ms = output_calls p ms"
  by (simp add: output_calls_def)

lemma report_repeatable:
  assumes "repeatable_output en" "list_all is_output_call cs1" "list_all is_output_call cs2"
  shows "report en p (h @ cs1) ms = report en p (h @ cs2) ms"
  using assms(2,3)
proof (induction ms arbitrary: cs1 cs2)
  case Nil
  then show ?case by simp
next
  case (Cons m ms)
  have o: "moduleOutput en (h @ cs1) m = moduleOutput en (h @ cs2) m"
    using assms(1) Cons.prems by (simp add: repeatable_output_def)
  have r: "report en p (h @ cs1 @ [Output m]) ms = report en p (h @ cs2 @ [Output m]) ms"
    using Cons.IH[of "cs1 @ [Output m]" "cs2 @ [Output m]"] Cons.prems by simp
  show ?case using o r Cons.IH[OF Cons.prems]
    by (simp split: option.splits sum.splits)
qed

lemma generateResults_report:
  assumes "\<forall>m \<in> set (moduleOrder p). modules p m \<noteq> None"
  shows "case report en p (calls p) (sort_key (displayOrderOf p) (moduleOrder p)) of
           Inl e \<Rightarrow> (\<exists>q. generateResults en p = Inl (Uncaught e, q))
         | Inr es \<Rightarrow> generateResults en p
             = Inr (es, p\<lparr>moduleOrder := sort_key (displayOrderOf p) (moduleOrder p),
                          calls := calls p @ output_calls p (sort_key (displayOrderOf p) (moduleOrder p))\<rparr>)"
proof -
  let ?srt = "sort_key (displayOrderOf p) (moduleOrder p)"
  let ?p1 = "p\<lparr>moduleOrder := ?srt\<rparr>"
  have g: "generateResults en p = collectResults en ?srt ([], ?p1\<lparr>calls := calls p\<rparr>)"
  proof -
    have "\<not> (\<exists>m \<in> set (moduleOrder p). modules p m = None)" using assms by blast
    then show ?thesis unfolding generateResults_def Let_def by (simp only: if_False) simp
  qed
  have m: "\<forall>m \<in> set ?srt. modules ?p1 m \<noteq> None" using assms by simp
  have rc: "report en ?p1 (calls p) ?srt = report en p (calls p) ?srt" by (rule report_cong) simp_all
  have oc: "output_calls ?p1 ?srt = output_calls p ?srt" by (rule output_calls_cong) simp
  show ?thesis
    using collectResults_report[OF m, where en = en and h = "calls p" and acc = "[]"] unfolding g rc oc
    by (auto split: sum.splits)
qed

lemma finished_run_modules: "\<forall>m \<in> set (moduleOrder finished_run). modules finished_run m \<noteq> None"
  by code_simp

lemma finished_run_report:
  "report reporting_env finished_run (calls finished_run)
     (sort_key (displayOrderOf finished_run) (moduleOrder finished_run))
   = Inr [(''C'', ErrorMessage (Caught (Exception ''boom''))), (''B'', Markup ''b''), (''A'', Markup ''a'')]"
  by code_simp

lemma reporting_env_repeatable: "repeatable_output reporting_env"
  by (simp add: repeatable_output_def reporting_env_def)

lemma finished_run_results:
  "generateResults reporting_env finished_run
     = Inr (results_of (generateResults reporting_env finished_run),
            parser_of (generateResults reporting_env finished_run))"
proof -
  have "case generateResults reporting_env finished_run of Inl f \<Rightarrow> False | Inr r \<Rightarrow> True"
    by code_simp
  then show ?thesis by (auto simp: results_of_def parser_of_def split: sum.splits)
qed

subsection \<open>toposort on a graph without edges\<close>

lemma buildModules_moduleOrder:
  assumes "ts (nodes_of (constructors p)) (edges_of (constructors p)) = Inr srt"
  shows "moduleOrder (state_of (buildModules ts en p)) = rev srt"
proof -
  let ?p1 = "p\<lparr>moduleOrder := rev srt\<rparr>"
  have eq: "buildModules ts en p = forEach (initModule en) (rev srt) ?p1"
    using assms by (simp add: buildModules_def Let_def)
  show ?thesis unfolding eq using forEach_initModule_keeps[of en "rev srt" ?p1] by simp
qed

lemma outgoing_no_edges: "outgoing [] node = []"
  by (simp add: outgoing_def)

lemma visit_no_edges:
  assumes "node \<in> set nodes" "node \<notin> set (fst st)"
  shows "visit (Suc k) nodes [] [] node st = Inr (node # fst st, node # snd st)"
  using assms by (simp add: outgoing_no_edges)

lemma visitAll_no_edges:
  assumes "distinct xs" "set xs \<subseteq> set nodes" "set xs \<inter> set (fst st) = {}"
  shows "visitAll (visit (Suc k) nodes [] []) xs st = Inr (rev xs @ fst st, rev xs @ snd st)"
  using assms
proof (induction xs arbitrary: st)
  case Nil
  then show ?case by simp
next
  case (Cons x xs)
  have v: "visit (Suc k) nodes [] [] x st = Inr (x # fst st, x # snd st)"
    using Cons.prems by (intro visit_no_edges) auto
  have "visitAll (visit (Suc k) nodes [] []) xs (x # fst st, x # snd st)
          = Inr (rev xs @ fst (x # fst st, x # snd st), rev xs @ snd (x # fst st, x # snd st))"
    using Cons.prems by (intro Cons.IH) auto
  then show ?case by (simp only: visitAll.simps v sum.case) simp
qed

lemma toposort_array_no_edges:
  assumes "distinct nodes"
  shows "toposort_array nodes [] = Inr nodes"
proof -
  let ?st = "([], []) :: modid list \<times> modid list"
  have "visitAll (visit (Suc (length nodes)) nodes [] []) (rev nodes) ?st
          = Inr (rev (rev nodes) @ fst ?st, rev (rev nodes) @ snd ?st)"
    by (rule visitAll_no_edges) (use assms in auto)
  then show ?thesis by (simp add: toposort_array_def)
qed

lemma edges_of_none:
  assumes "\<forall>(m, c) \<in> set cs. dependencies c = []"
  shows "edges_of cs = []"
  using assms by (induction cs) (auto simp: edges_of_def)

subsection \<open>The cascade\<close>

lemma edge_rank:
  assumes "dependency_order cs order" "(a, b) \<in> set (edges_of cs)"
  shows "before order b a"
  using assms by (auto simp: dependency_order_def edges_of_iff)

lemma path_rank:
  assumes "dependency_order cs order" "depends_on cs a b"
  shows "indexOf order b < indexOf order a"
  using assms(2) unfolding depends_on_def
proof (induction rule: trancl_induct)
  case (base y)
  then show ?case using edge_rank[OF assms(1)] by (simp add: before_def)
next
  case (step y z)
  then show ?case using edge_rank[OF assms(1), of y z] by (simp add: before_def)
qed

lemma depends_on_step: "(a, b) \<in> set (edges_of cs) \<Longrightarrow> depends_on cs a b"
  by (simp add: depends_on_def)

lemma depends_on_trans: "depends_on cs a b \<Longrightarrow> depends_on cs b c \<Longrightarrow> depends_on cs a c"
  by (simp add: depends_on_def)

lemma depends_on_last:
  "depends_on cs a b \<longleftrightarrow> (\<exists>k. (k, b) \<in> set (edges_of cs) \<and> (a = k \<or> depends_on cs a k))"
proof
  assume "depends_on cs a b"
  then have "(a, b) \<in> (set (edges_of cs))\<^sup>+" by (simp add: depends_on_def)
  then show "\<exists>k. (k, b) \<in> set (edges_of cs) \<and> (a = k \<or> depends_on cs a k)"
    by (cases rule: tranclE) (auto simp: depends_on_def)
next
  assume "\<exists>k. (k, b) \<in> set (edges_of cs) \<and> (a = k \<or> depends_on cs a k)"
  then show "depends_on cs a b"
    by (auto simp: depends_on_def intro: trancl_into_trancl)
qed

lemma forEach_prefix_inv:
  assumes "I [] p"
      and "\<And>ys x q. I ys q \<Longrightarrow> x \<in> set xs \<Longrightarrow> \<exists>q'. f x q = Inr q' \<and> I (ys @ [x]) q'"
  shows "\<exists>q'. forEach f xs p = Inr q' \<and> I xs q'"
proof -
  have "I ys p \<Longrightarrow> set zs \<subseteq> set xs \<Longrightarrow> \<exists>q'. forEach f zs p = Inr q' \<and> I (ys @ zs) q'" for ys zs p
  proof (induction zs arbitrary: ys p)
    case Nil
    then show ?case by simp
  next
    case (Cons z zs)
    then obtain q where q: "f z q0 = Inr q" "I (ys @ [z]) q" if "q0 = p" for q0
      using assms(2)[of ys p z] by auto
    have "\<exists>q'. forEach f zs q = Inr q' \<and> I ((ys @ [z]) @ zs) q'"
      using Cons.IH[of "ys @ [z]" q] q(2) Cons.prems(2) by simp
    then show ?case using q(1) by simp
  qed
  from this[of "[]" p xs] assms(1) show ?thesis by simp
qed

lemma mark_failed_fields:
  "constructors (mark_failed m err p) = constructors p"
  "moduleErrors (mark_failed m err p) = (moduleErrors p)(m \<mapsto> err)"
  by (simp_all add: mark_failed_def)

lemma mark_failed_removes: "distinct (triggerModules p) \<Longrightarrow> m \<notin> set (triggerModules (mark_failed m err p))"
  by (simp add: mark_failed_def splice_facts)

lemma shrinks_live: "shrinks p q \<Longrightarrow> a \<notin> set (triggerModules p) \<Longrightarrow> a \<notin> set (triggerModules q)"
  by (auto simp: shrinks_def dest: list_emb_set)

lemma shrinks_distinct: "shrinks p q \<Longrightarrow> distinct (triggerModules p) \<Longrightarrow> distinct (triggerModules q)"
  by (auto simp: shrinks_def dest: subseq_distinct)

lemma setModuleError_cascades:
  assumes o: "dependency_order cs order"
  shows "constructors p = cs \<Longrightarrow> distinct (triggerModules p) \<Longrightarrow>
         int (length order) \<le> int n + indexOf order m \<Longrightarrow>
         \<exists>q. setModuleError n m err p = Inr q \<and> cascaded m err p q"
proof (induction n arbitrary: m err p)
  case 0
  then show ?case using indexOf_less[of order m] by simp
next
  case (Suc n)
  note cs = Suc.prems(1) and dist = Suc.prems(2) and fuel = Suc.prems(3)
  let ?p0 = "mark_failed m err p"
  let ?f = "\<lambda>(key, c) q. if m \<in> set (dependencies c)
                 then setModuleError n key (DependencyCascadeError m) q else Inr q"
  define reached where
    "reached ys a \<longleftrightarrow> (\<exists>x \<in> set ys. m \<in> set (dependencies (snd x)) \<and> (a = fst x \<or> depends_on cs a (fst x)))"
    for ys :: "(modid \<times> module_class) list" and a
  define I where
    "I ys q \<longleftrightarrow>
       same_modules p q \<and> shrinks p q \<and> distinct (triggerModules q) \<and>
       m \<notin> set (triggerModules q) \<and> moduleErrors q m = Some err \<and>
       (\<forall>a. a \<noteq> m \<and> \<not> depends_on cs a m \<longrightarrow> moduleErrors q a = moduleErrors p a) \<and>
       (\<forall>a. reached ys a \<longrightarrow> a \<notin> set (triggerModules q) \<and> cascade_entry cs m a (moduleErrors q a))"
    for ys q
  have base: "I [] ?p0"
    unfolding I_def reached_def
    using mark_failed_same[of p m err] mark_failed_shrinks[of p m err] mark_failed_removes[OF dist, of m err]
          shrinks_distinct[OF mark_failed_shrinks dist, of m err]
    by (simp add: mark_failed_fields)
  have step: "\<exists>q'. ?f x q = Inr q' \<and> I (ys @ [x]) q'" if Iq: "I ys q" and x: "x \<in> set cs" for ys x q
  proof -
    obtain key c where kc: "x = (key, c)" by (cases x)
    have q: "same_modules p q" "shrinks p q" "distinct (triggerModules q)"
      "m \<notin> set (triggerModules q)" "moduleErrors q m = Some err"
      "\<And>a. a \<noteq> m \<Longrightarrow> \<not> depends_on cs a m \<Longrightarrow> moduleErrors q a = moduleErrors p a"
      "\<And>a. reached ys a \<Longrightarrow> a \<notin> set (triggerModules q) \<and> cascade_entry cs m a (moduleErrors q a)"
      using Iq unfolding I_def by blast+
    show ?thesis
    proof (cases "m \<in> set (dependencies c)")
      case False
      have "reached (ys @ [x]) a \<longleftrightarrow> reached ys a" for a
        using False by (auto simp: reached_def kc)
      then have "I (ys @ [x]) q" using Iq unfolding I_def by simp
      then show ?thesis using False by (simp add: kc)
    next
      case True
      have edge: "(key, m) \<in> set (edges_of cs)" using True x kc by (auto simp: edges_of_iff)
      have km: "depends_on cs key m" using edge by (rule depends_on_step)
      have rk: "0 \<le> indexOf order m" "indexOf order m < indexOf order key"
        using edge_rank[OF o edge] by (simp_all add: before_def)
      have fuel': "int (length order) \<le> int n + indexOf order key" using fuel rk by simp
      have csq: "constructors q = cs" using q(1) cs by (simp add: same_modules_def)
      obtain q' where q': "setModuleError n key (DependencyCascadeError m) q = Inr q'"
          "cascaded key (DependencyCascadeError m) q q'"
        using Suc.IH[OF csq q(3) fuel'] by blast
      have c: "same_modules q q'" "shrinks q q'" "distinct (triggerModules q')"
        "key \<notin> set (triggerModules q')" "moduleErrors q' key = Some (DependencyCascadeError m)"
        "\<And>a. depends_on cs a key \<Longrightarrow> a \<notin> set (triggerModules q') \<and> cascade_entry cs key a (moduleErrors q' a)"
        "\<And>a. a \<noteq> key \<Longrightarrow> \<not> depends_on cs a key \<Longrightarrow> moduleErrors q' a = moduleErrors q a"
        using q'(2) unfolding cascaded_def csq by blast+
      have nmk: "m \<noteq> key" using rk by auto
      have nmk': "\<not> depends_on cs m key" using path_rank[OF o, of m key] rk by auto
      have 1: "same_modules p q'" using q(1) c(1) by (rule same_modules_trans)
      have 2: "shrinks p q'" using q(2) c(2) by (rule shrinks_trans)
      have 4: "m \<notin> set (triggerModules q')" using c(2) q(4) by (rule shrinks_live)
      have 5: "moduleErrors q' m = Some err" using c(7)[OF nmk nmk'] q(5) by simp
      have 6: "moduleErrors q' a = moduleErrors p a" if "a \<noteq> m" "\<not> depends_on cs a m" for a
      proof -
        have "a \<noteq> key" using that(2) km by auto
        moreover have "\<not> depends_on cs a key" using that(2) km depends_on_trans by blast
        ultimately show ?thesis using c(7) q(6)[OF that] by simp
      qed
      have new: "a \<notin> set (triggerModules q') \<and> cascade_entry cs m a (moduleErrors q' a)"
        if "a = key \<or> depends_on cs a key" for a
      proof (cases "a = key")
        case True
        then show ?thesis using c(4,5) edge by (auto simp: cascade_entry_def)
      next
        case False
        then have d: "depends_on cs a key" using that by simp
        from c(6)[OF d] obtain x' where x': "a \<notin> set (triggerModules q')"
           "moduleErrors q' a = Some (DependencyCascadeError x')" "(a, x') \<in> set (edges_of cs)"
           "x' = key \<or> depends_on cs x' key"
          by (auto simp: cascade_entry_def)
        have "depends_on cs x' m" using x'(4) km depends_on_trans by blast
        then show ?thesis using x'(1,2,3) by (auto simp: cascade_entry_def)
      qed
      have 7: "a \<notin> set (triggerModules q') \<and> cascade_entry cs m a (moduleErrors q' a)"
        if r: "reached (ys @ [x]) a" for a
      proof (cases "a = key \<or> depends_on cs a key")
        case True
        then show ?thesis by (rule new)
      next
        case False
        then have "reached ys a" using r by (auto simp: reached_def kc)
        then have "a \<notin> set (triggerModules q)" "cascade_entry cs m a (moduleErrors q a)"
          using q(7) by blast+
        moreover have "moduleErrors q' a = moduleErrors q a" using False c(7) by blast
        ultimately show ?thesis using shrinks_live[OF c(2)] by simp
      qed
      have "I (ys @ [x]) q'" unfolding I_def using 1 2 c(3) 4 5 6 7 by blast
      then show ?thesis using True q'(1) by (simp add: kc)
    qed
  qed
  obtain q where q: "forEach ?f cs ?p0 = Inr q" "I cs q"
    using forEach_prefix_inv[where I = I and f = ?f and xs = cs and p = ?p0, OF base step] by blast
  have r: "reached cs a" if d: "depends_on cs a m" for a
  proof -
    obtain k where k: "(k, m) \<in> set (edges_of cs)" "a = k \<or> depends_on cs a k"
      using d depends_on_last[of cs a m] by blast
    then obtain c where "(k, c) \<in> set cs" "m \<in> set (dependencies c)" by (auto simp: edges_of_iff)
    then show ?thesis using k(2) unfolding reached_def by force
  qed
  have "cascaded m err p q"
    unfolding cascaded_def cs using q(2) r unfolding I_def by blast
  moreover have "setModuleError (Suc n) m err p = Inr q"
    unfolding setModuleError_Suc cs by (rule q(1))
  ultimately show ?case by blast
qed

lemma dependency_order_length:
  assumes "dependency_order cs order"
  shows "length order \<le> length cs"
proof -
  have d: "distinct order" and s: "set order = set (map fst cs)"
    using assms by (simp_all add: dependency_order_def nodes_of_def)
  have "length order = card (set order)" using d by (simp add: distinct_card)
  also have "\<dots> = card (set (map fst cs))" by (simp only: s)
  also have "\<dots> \<le> length (map fst cs)" by (rule card_length)
  finally show ?thesis by simp
qed

lemma deliver_new_calls:
  assumes "a \<notin> set (triggerModules r)"
  shows "TriggerEvent a ev \<notin> set (drop (length (calls r)) (calls (state_of (deliver en ev k n r))))"
proof -
  obtain ms where ms: "delivered ev ms r (state_of (deliver en ev k n r))"
      "subseq ms (drop k (triggerModules r))"
    using deliver_delivered[of ev r en k n] by blast
  have "set ms \<subseteq> set (drop k (triggerModules r))"
    using ms(2) by (auto dest: list_emb_set)
  then have "set ms \<subseteq> set (triggerModules r)"
    using set_drop_subset[of k "triggerModules r"] by blast
  moreover have "drop (length (calls r)) (calls (state_of (deliver en ev k n r)))
                  = map (\<lambda>m. TriggerEvent m ev) ms"
    using ms(1) by (simp add: delivered_def)
  ultimately show ?thesis using assms by auto
qed

subsection \<open>The diamond and the chain\<close>

text \<open>
  A module that two failed modules both reach is handed to \<^verbatim>\<open>_setModuleError\<close> twice. The second
  time it is no longer in \<^verbatim>\<open>_triggerModules\<close>, \<^verbatim>\<open>indexOf\<close> gives \<open>-1\<close>, and \<^verbatim>\<open>splice(-1, 1)\<close>
  removes the last live module, whatever it is: in the diamond \<open>d \<rightarrow> b, c \<rightarrow> a\<close> with an unrelated
  module \<open>z\<close>, the failure of \<open>a\<close> ends the delivery to \<open>z\<close>, which has no recorded error.
\<close>

lemma unrelated_module_dropped:
  "moduleOrder (state_of (run (throwing_env ''a'' ''cast'') diamond_classes [cast_event, cast_event]))
     = [''a'', ''c'', ''b'', ''d'', ''z'']
   \<and> recipients cast_event
        (calls (state_of (run (throwing_env ''a'' ''cast'') diamond_classes [cast_event, cast_event])))
     = [''a'']
   \<and> triggerModules (state_of (run (throwing_env ''a'' ''cast'') diamond_classes [cast_event, cast_event]))
     = []
   \<and> moduleErrors (state_of (run (throwing_env ''a'' ''cast'') diamond_classes [cast_event, cast_event])) ''z''
     = None"
  by code_simp

lemma started_chain_order: "dependency_order (constructors started_chain) (moduleOrder started_chain)"
  by code_simp

lemma started_chain_distinct: "distinct (triggerModules started_chain)"
  by code_simp

lemma started_chain_depends: "depends_on (constructors started_chain) ''c'' ''a''"
proof -
  have "edges_of (constructors started_chain) = [(''b'', ''a''), (''c'', ''b'')]" by code_simp
  moreover have "(''c'', ''a'') \<in> (set [(''b'', ''a''), (''c'', ''b'')])\<^sup>+"
    by (rule trancl_into_trancl[of _ "''b''"]) (simp_all add: r_into_trancl)
  ultimately show ?thesis by (simp add: depends_on_def)
qed

subsection \<open>The toposort package keeps its contract\<close>

lemma set_outgoing: "set (outgoing edges node) = {v. (node, v) \<in> set edges}"
  by (auto simp: outgoing_def image_iff)

lemma indexOf_Cons_other: "y \<noteq> x \<Longrightarrow> y \<in> set xs \<Longrightarrow> indexOf (x # xs) y = indexOf xs y + 1"
  using indexOf_nonneg[of y xs] by (simp add: Let_def)

lemma before_members: "before xs a b \<Longrightarrow> a \<in> set xs \<and> b \<in> set xs"
  using indexOf_nonneg[of a xs] indexOf_nonneg[of b xs] by (simp add: before_def)

lemma before_Cons: "before xs a b \<Longrightarrow> x \<notin> set xs \<Longrightarrow> before (x # xs) a b"
proof -
  assume b: "before xs a b" and x: "x \<notin> set xs"
  have m: "a \<in> set xs" "b \<in> set xs" using before_members[OF b] by simp_all
  then have "a \<noteq> x" "b \<noteq> x" using x by auto
  then show ?thesis using b m by (simp add: before_def indexOf_Cons_other)
qed

lemma before_head: "b \<in> set xs \<Longrightarrow> x \<notin> set xs \<Longrightarrow> before (x # xs) x b"
proof -
  assume b: "b \<in> set xs" and x: "x \<notin> set xs"
  then have "b \<noteq> x" by auto
  then show ?thesis using b indexOf_nonneg[of b xs] by (simp add: before_def indexOf_Cons_other)
qed

lemma visitAll_ok:
  assumes ok: "visit_ok k nodes edges"
  shows "(\<forall>c \<in> set cs. visit_pre k nodes edges predecessors c) \<Longrightarrow>
         visit_inv nodes edges predecessors st \<Longrightarrow>
         visit_post nodes edges predecessors cs st
           (visitAll (visit k nodes edges predecessors) cs st)"
proof (induction cs arbitrary: st)
  case Nil
  then show ?case by (simp add: visit_post_def)
next
  case (Cons c cs)
  have pc: "visit_pre k nodes edges predecessors c" using Cons.prems(1) by simp
  have p1: "visit_post nodes edges predecessors [c] st (visit k nodes edges predecessors c st)"
    using ok pc Cons.prems(2) unfolding visit_ok_def by blast
  show ?case
  proof (cases "visit k nodes edges predecessors c st")
    case (Inl e)
    then show ?thesis using p1 by (simp add: visit_post_def)
  next
    case (Inr st1)
    then have s1: "visit_inv nodes edges predecessors st1" "c \<in> set (snd st1)"
        "set (snd st) \<subseteq> set (snd st1)"
      using p1 by (simp_all add: visit_post_def)
    have p2: "visit_post nodes edges predecessors cs st1
                (visitAll (visit k nodes edges predecessors) cs st1)"
      using Cons.IH[OF _ s1(1)] Cons.prems(1) by simp
    show ?thesis
    proof (cases "visitAll (visit k nodes edges predecessors) cs st1")
      case (Inl e)
      then show ?thesis using p2 Inr by (simp add: visit_post_def)
    next
      case (Inr st2)
      then show ?thesis using p2 s1 \<open>visit k nodes edges predecessors c st = Inr st1\<close>
        by (auto simp: visit_post_def)
    qed
  qed
qed

lemma stack_length:
  assumes "distinct ps" "set ps \<subseteq> set nodes"
  shows "length ps \<le> length nodes"
proof -
  have "length ps = card (set ps)" using assms(1) by (simp add: distinct_card)
  also have "\<dots> \<le> card (set nodes)" using assms(2) by (simp add: card_mono)
  also have "\<dots> \<le> length nodes" by (rule card_length)
  finally show ?thesis .
qed

lemma visit_finished:
  assumes inv': "visit_inv nodes edges (node # predecessors) st'"
      and kids: "{v. (node, v) \<in> set edges} \<subseteq> set (snd st')"
      and nn: "node \<in> set nodes" and np: "node \<notin> set predecessors"
  shows "visit_inv nodes edges predecessors (fst st', node # snd st')"
proof -
  have i: "set (fst st') = set (snd st') \<union> set (node # predecessors)" "distinct (snd st')"
    "set (snd st') \<subseteq> set nodes" "set (snd st') \<inter> set (node # predecessors) = {}"
    "\<And>e. e \<in> set edges \<Longrightarrow> fst e \<in> set (snd st') \<Longrightarrow> before (snd st') (fst e) (snd e)"
    using inv' unfolding visit_inv_def by blast+
  have n: "node \<notin> set (snd st')" using i(4) by auto
  have e: "before (node # snd st') (fst e) (snd e)"
    if "e \<in> set edges" "fst e \<in> set (node # snd st')" for e
  proof (cases "fst e = node")
    case True
    then have "(node, snd e) \<in> set edges" using that(1) by (metis prod.collapse)
    then have "snd e \<in> set (snd st')" using kids by blast
    then show ?thesis using before_head[OF _ n] True by simp
  next
    case False
    then have "fst e \<in> set (snd st')" using that(2) by simp
    then show ?thesis using i(5)[OF that(1)] before_Cons[OF _ n] by blast
  qed
  have 1: "set (fst st') = set (node # snd st') \<union> set predecessors" using i(1) by auto
  have 2: "distinct (node # snd st')" using i(2) n by simp
  have 3: "set (node # snd st') \<subseteq> set nodes" using i(3) nn by simp
  have 4: "set (node # snd st') \<inter> set predecessors = {}" using i(4) np by auto
  show ?thesis unfolding visit_inv_def fst_conv snd_conv using 1 2 3 4 e by blast
qed

lemma visit_started:
  assumes inv: "visit_inv nodes edges predecessors st" and nv: "node \<notin> set (fst st)"
  shows "visit_inv nodes edges (node # predecessors) (node # fst st, snd st)"
proof -
  have "set (snd st) \<subseteq> set (fst st)" using inv by (auto simp: visit_inv_def)
  then have "node \<notin> set (snd st)" using nv by auto
  then show ?thesis using inv by (auto simp: visit_inv_def)
qed

lemma visit_ok_all:
  assumes known: "known_ends nodes edges"
  shows "visit_ok k nodes edges"
proof (induction k)
  case 0
  show ?case unfolding visit_ok_def visit_pre_def
    using stack_length[of _ nodes] by fastforce
next
  case (Suc n)
  have "visit_post nodes edges predecessors [node] st (visit (Suc n) nodes edges predecessors node st)"
    if pre: "visit_pre (Suc n) nodes edges predecessors node"
      and inv: "visit_inv nodes edges predecessors st" for predecessors node st
  proof -
    have p: "node \<in> set nodes" "distinct predecessors" "set predecessors \<subseteq> set nodes"
      "\<And>p. p \<in> set predecessors \<Longrightarrow> (p, node) \<in> (set edges)\<^sup>+"
      "length nodes + 1 \<le> Suc n + length predecessors"
      using pre unfolding visit_pre_def by blast+
    show ?thesis
    proof (cases "node \<in> set predecessors")
      case True
      then have "on_cycle edges node" using p(4) by (simp add: on_cycle_def)
      then show ?thesis using True by (simp add: visit_post_def)
    next
      case np: False
      show ?thesis
      proof (cases "node \<in> set (fst st)")
        case True
        have "set (fst st) = set (snd st) \<union> set predecessors" using inv by (simp add: visit_inv_def)
        then have "node \<in> set (snd st)" using True np by auto
        then show ?thesis using True np p(1) inv by (simp add: visit_post_def)
      next
        case nv: False
        let ?ps = "node # predecessors"
        let ?st0 = "(node # fst st, snd st)"
        let ?cs = "rev (outgoing edges node)"
        have kids: "set ?cs = {v. (node, v) \<in> set edges}" by (simp add: set_outgoing)
        have cpre: "\<forall>c \<in> set ?cs. visit_pre n nodes edges ?ps c"
        proof
          fix c assume "c \<in> set ?cs"
          then have e: "(node, c) \<in> set edges" using kids by blast
          then have c: "c \<in> set nodes" using known by (force simp: known_ends_def)
          have "(q, c) \<in> (set edges)\<^sup>+" if "q \<in> set ?ps" for q
          proof (cases "q = node")
            case True then show ?thesis using e by auto
          next
            case False
            then have "(q, node) \<in> (set edges)\<^sup>+" using that p(4) by simp
            then show ?thesis using e by (rule trancl_into_trancl)
          qed
          then show "visit_pre n nodes edges ?ps c"
            unfolding visit_pre_def using c p(1,2,3,5) np by auto
        qed
        have inv0: "visit_inv nodes edges ?ps ?st0" using inv nv by (rule visit_started)
        have post: "visit_post nodes edges ?ps ?cs ?st0 (visitAll (visit n nodes edges ?ps) ?cs ?st0)"
          using visitAll_ok[OF Suc.IH cpre inv0] .
        have eq: "visit (Suc n) nodes edges predecessors node st =
            (case visitAll (visit n nodes edges ?ps) ?cs ?st0 of
               Inl e \<Rightarrow> Inl e | Inr st' \<Rightarrow> Inr (fst st', node # snd st'))"
          using np nv p(1) by simp
        show ?thesis
        proof (cases "visitAll (visit n nodes edges ?ps) ?cs ?st0")
          case (Inl e)
          then show ?thesis using post unfolding eq by (simp add: visit_post_def)
        next
          case (Inr st')
          then have s: "visit_inv nodes edges ?ps st'" "set ?cs \<subseteq> set (snd st')"
              "set (snd st) \<subseteq> set (snd st')"
            using post by (simp_all add: visit_post_def)
          have "visit_inv nodes edges predecessors (fst st', node # snd st')"
            using s(1) _ p(1) np by (rule visit_finished) (use s(2) kids in simp)
          then show ?thesis using s(3) Inr unfolding eq by (auto simp: visit_post_def)
        qed
      qed
    qed
  qed
  then show ?case unfolding visit_ok_def by blast
qed

lemma toposort_array_contract: "toposort_contract toposort_array nodes edges"
proof (cases "known_ends nodes edges")
  case False
  then have "toposort_array nodes edges = Inl (Exception ''Unknown node'')"
    by (auto simp: toposort_array_def known_ends_def)
  then show ?thesis using False by (simp add: toposort_contract_def)
next
  case True
  let ?st = "([], []) :: modid list \<times> modid list"
  let ?k = "Suc (length nodes)"
  have pre: "\<forall>c \<in> set (rev nodes). visit_pre ?k nodes edges [] c"
    by (simp add: visit_pre_def)
  have inv: "visit_inv nodes edges [] ?st" by (simp add: visit_inv_def)
  have post: "visit_post nodes edges [] (rev nodes) ?st (visitAll (visit ?k nodes edges []) (rev nodes) ?st)"
    using visitAll_ok[OF visit_ok_all[OF True] pre inv] .
  have eq: "toposort_array nodes edges =
      (case visitAll (visit ?k nodes edges []) (rev nodes) ?st of Inl e \<Rightarrow> Inl e | Inr st \<Rightarrow> Inr (snd st))"
    using True by (auto simp: toposort_array_def known_ends_def)
  show ?thesis
  proof (cases "visitAll (visit ?k nodes edges []) (rev nodes) ?st")
    case (Inl e)
    then obtain m where m: "e = CyclicDependency m" "on_cycle edges m"
      using post by (auto simp: visit_post_def)
    have "toposort_array nodes edges = Inl (CyclicDependency m)" using eq Inl m(1) by simp
    then show ?thesis using m(2) by (simp add: toposort_contract_def)
  next
    case (Inr st')
    then have s: "visit_inv nodes edges [] st'" "set (rev nodes) \<subseteq> set (snd st')"
      using post by (simp_all add: visit_post_def)
    have 1: "distinct (snd st')" "set (snd st') = set nodes"
      using s by (auto simp: visit_inv_def)
    have 2: "before (snd st') (fst e) (snd e)" if "e \<in> set edges" for e
    proof -
      have "fst e \<in> set nodes" using True that by (simp add: known_ends_def)
      then show ?thesis using s(1) that 1(2) unfolding visit_inv_def by blast
    qed
    have "toposort_array nodes edges = Inr (snd st')" using eq Inr by simp
    then show ?thesis using 1 2 by (simp add: toposort_contract_def)
  qed
qed

section \<open>Delivery of an event while a module fails\<close>

text \<open>
  C2 (the code departs from the claim). Two modules without dependencies are registered as
  \<open>a\<close>, \<open>b\<close>; the build order is \<open>b\<close>, \<open>a\<close>. Module \<open>b\<close> throws on the one real event.
  \<^verbatim>\<open>_setModuleError\<close> removes \<open>b\<close> from the array \<^verbatim>\<open>triggerEvent\<close> is iterating, \<open>a\<close> moves to
  the index just visited, and the iteration ends without calling it: \<open>a\<close> stays live to the end
  of the run, and receives the \<open>init\<close> and the \<open>complete\<close> event, but never the real one.
\<close>

theorem live_module_misses_event:
  "recipients init_event
      (calls (state_of (run (throwing_env ''b'' ''cast'') two_classes [cast_event]))) = [''b'', ''a'']
   \<and> recipients cast_event
      (calls (state_of (run (throwing_env ''b'' ''cast'') two_classes [cast_event]))) = [''b'']
   \<and> recipients \<lparr>ev_type = ''complete'', timestamp = 10, trigger = None, fabricated = True\<rparr>
      (calls (state_of (run (throwing_env ''b'' ''cast'') two_classes [cast_event]))) = [''a'']
   \<and> triggerModules (state_of (run (throwing_env ''b'' ''cast'') two_classes [cast_event])) = [''a'']"
  by code_simp

section \<open>The build order\<close>

text \<open>
  C4. \<^verbatim>\<open>buildModules\<close> hands the keys of \<^verbatim>\<open>_constructors\<close> and one edge \<open>(module, dependency)\<close>
  per declared dependency to toposort and reverses what it returns. Provided toposort keeps its
  contract on that graph (\<open>toposort_contract\<close>: a list it returns holds every node once and
  every edge's source before its target; it throws only for a cyclic graph or an edge to an unknown
  node), then for every descriptor set that is acyclic and declares only registered modules as
  dependencies, the order is computed, every registered identifier appears in it exactly once,
  and every declared dependency stands strictly before the module that declares it. The package
  as \<open>toposort_array\<close> models it keeps the contract on every graph
  (\<open>toposort_array_contract\<close>).
\<close>

theorem build_order_respects_dependencies:
  assumes "toposort_contract ts (nodes_of (constructors p)) (edges_of (constructors p))"
      and "known_ends (nodes_of (constructors p)) (edges_of (constructors p))"
      and "\<not> cyclic (edges_of (constructors p))"
  shows "(\<exists>srt. ts (nodes_of (constructors p)) (edges_of (constructors p)) = Inr srt) \<and>
         distinct (moduleOrder (state_of (buildModules ts en p))) \<and>
         set (moduleOrder (state_of (buildModules ts en p))) = set (nodes_of (constructors p)) \<and>
         (\<forall>(m, c) \<in> set (constructors p). \<forall>d \<in> set (dependencies c).
             before (moduleOrder (state_of (buildModules ts en p))) d m)"
proof -
  obtain srt where srt: "ts (nodes_of (constructors p)) (edges_of (constructors p)) = Inr srt"
    using contract_acyclic[OF assms] by blast
  show ?thesis
    using buildModules_order(1)[OF assms(1) srt, of en] buildModules_order(3)[OF assms(1) srt] srt
    by (simp add: dependency_order_def)
qed

theorem build_order_respects_dependencies_witness:
  "moduleOrder (state_of (buildModules toposort_array quiet_env (fresh_parser star_classes))) = [''a'', ''c'', ''b'']
   \<and> before [''a'', ''c'', ''b''] ''a'' ''b'' \<and> before [''a'', ''c'', ''b''] ''a'' ''c''"
proof -
  have 3: "moduleOrder (state_of (buildModules toposort_array quiet_env (fresh_parser star_classes))) = [''a'', ''c'', ''b'']"
    by code_simp
  have 4: "(''b'', plain_class [''a'']) \<in> set (constructors (fresh_parser star_classes))"
          "(''c'', plain_class [''a'']) \<in> set (constructors (fresh_parser star_classes))"
    by code_simp+
  have 5: "''a'' \<in> set (dependencies (plain_class [''a'']))" by (simp add: plain_class_def)
  note t = build_order_respects_dependencies[OF star_contract star_known star_acyclic, of quiet_env, unfolded 3]
  from t have "\<forall>(m, c) \<in> set (constructors (fresh_parser star_classes)). \<forall>d \<in> set (dependencies c).
             before [''a'', ''c'', ''b''] d m" by blast
  then show ?thesis using 3 4 5 by blast
qed

text \<open>
  C5 (as amended). Under the same contract of toposort, for every descriptor set whose
  dependency graph has a cycle \<^verbatim>\<open>buildModules\<close> fails with the error toposort throws, before the
  loop that constructs the modules: the parser is left as it was, with no instance constructed
  and no build order assigned. The source has no error class of its own for this. When every
  declared dependency is registered, the error is toposort's cyclic-dependency error, and it
  names one module, which lies on a cycle; it does not name the other modules of the cycle.
\<close>

theorem cyclic_dependencies_build_nothing:
  assumes "toposort_contract ts (nodes_of (constructors p)) (edges_of (constructors p))"
      and "cyclic (edges_of (constructors p))"
  shows "\<exists>e. ts (nodes_of (constructors p)) (edges_of (constructors p)) = Inl e \<and>
             buildModules ts en p = Inl (Uncaught e, p) \<and>
             (known_ends (nodes_of (constructors p)) (edges_of (constructors p)) \<longrightarrow>
                (\<exists>n. e = CyclicDependency n \<and> on_cycle (edges_of (constructors p)) n))"
proof -
  obtain e where e: "ts (nodes_of (constructors p)) (edges_of (constructors p)) = Inl e"
    using contract_cyclic[OF assms] by blast
  then have "buildModules ts en p = Inl (Uncaught e, p)" by (simp add: buildModules_def Let_def)
  then show ?thesis using e contract_names_cycle[OF assms(1) _ e] by blast
qed

text \<open>
  The claim as it was stated, an error that names the modules involved, fails on the cycle
  \<open>a \<rightarrow> b \<rightarrow> c \<rightarrow> a\<close>: the error names \<open>c\<close>, the node at which the visit met the cycle,
  and neither \<open>a\<close> nor \<open>b\<close>.
\<close>

theorem cyclic_error_names_one_module:
  "edges_of (constructors (fresh_parser ring_classes))
     = [(''a'', ''b''), (''b'', ''c''), (''c'', ''a'')]
   \<and> toposort_array (nodes_of (constructors (fresh_parser ring_classes)))
        (edges_of (constructors (fresh_parser ring_classes))) = Inl (CyclicDependency ''c'')
   \<and> (case buildModules toposort_array quiet_env (fresh_parser ring_classes) of
          Inl fp \<Rightarrow> fst fp = Uncaught (CyclicDependency ''c'')
        | Inr q \<Rightarrow> False)"
  by code_simp

theorem cyclic_dependencies_build_nothing_witness:
  "cyclic (edges_of (constructors (fresh_parser loop_classes)))
   \<and> buildModules toposort_array quiet_env (fresh_parser loop_classes)
       = Inl (Uncaught (CyclicDependency ''b''), fresh_parser loop_classes)
   \<and> on_cycle (edges_of (constructors (fresh_parser loop_classes))) ''b''
   \<and> modules (fresh_parser loop_classes) = Map.empty \<and> calls (fresh_parser loop_classes) = []"
proof -
  have "modules (fresh_parser loop_classes) = Map.empty" "calls (fresh_parser loop_classes) = []"
    by (simp_all add: fresh_parser_def new_parser_def addModules_def)
  then show ?thesis
    using cyclic_dependencies_build_nothing[OF loop_contract loop_cyclic, of quiet_env]
          loop_sorted loop_known loop_cyclic
    by auto
qed

section \<open>The normalise pass\<close>

text \<open>
  C6. For a parser whose build order holds only built modules, the calls \<^verbatim>\<open>parseEvents\<close> makes
  into module code are the \<^verbatim>\<open>normalise\<close> calls followed by the \<^verbatim>\<open>triggerEvent\<close> calls, and no
  \<^verbatim>\<open>triggerEvent\<close> call comes before the last \<^verbatim>\<open>normalise\<close> call. The \<^verbatim>\<open>normalise\<close> calls are
  chained (\<open>chained\<close>): the first receives the events given to \<^verbatim>\<open>parseEvents\<close>, every later one
  the events the call before it returned. When none of them throws, the modules called are the
  build order, one call for each position of it (the build order has every module once, by C4).
  When one throws, it is the last call into module code of the run: the modules called so far are a
  prefix of the build order, no \<^verbatim>\<open>triggerEvent\<close> call is made, and \<^verbatim>\<open>parseEvents\<close> ends with
  that very exception, uncaught.
\<close>

theorem normalisers_run_once_before_delivery:
  assumes "\<forall>m \<in> set (moduleOrder p). modules p m \<noteq> None"
  shows "\<exists>ncalls tcalls res.
           calls (state_of (parseEvents en events p)) = calls p @ ncalls @ tcalls \<and>
           chained en (calls p) events ncalls = Some res \<and>
           list_all is_trigger_call tcalls \<and>
           (case res of
              Inr events' \<Rightarrow> map call_module ncalls = moduleOrder p
            | Inl e \<Rightarrow> prefix (map call_module ncalls) (moduleOrder p) \<and> tcalls = [] \<and>
                       (\<exists>q. parseEvents en events p = Inl (Uncaught e, q)))"
proof -
  obtain ncalls where n:
    "(case runNormalisers en (moduleOrder p) events p of
        Inr (evs', p1) \<Rightarrow> p1 = p\<lparr>calls := calls p @ ncalls\<rparr> \<and> map call_module ncalls = moduleOrder p \<and>
            chained en (calls p) events ncalls = Some (Inr evs')
      | Inl (f, p1) \<Rightarrow> p1 = p\<lparr>calls := calls p @ ncalls\<rparr> \<and> prefix (map call_module ncalls) (moduleOrder p) \<and>
            (\<exists>e. f = Uncaught e \<and> chained en (calls p) events ncalls = Some (Inl e)))"
    using runNormalisers_calls[OF assms, of en events] by blast
  show ?thesis
  proof (cases "runNormalisers en (moduleOrder p) events p")
    case (Inl fp)
    obtain f p1 where fp: "fp = (f, p1)" by (cases fp)
    from n Inl fp obtain e where e: "p1 = p\<lparr>calls := calls p @ ncalls\<rparr>"
        "prefix (map call_module ncalls) (moduleOrder p)" "f = Uncaught e"
        "chained en (calls p) events ncalls = Some (Inl e)" by auto
    have pe: "parseEvents en events p = Inl (Uncaught e, p1)"
      using Inl fp e(3) by (simp add: parseEvents_phases)
    show ?thesis
      by (rule exI[of _ ncalls], rule exI[of _ "[]"], rule exI[of _ "Inl e"])
         (use e pe in simp)
  next
    case (Inr ep)
    obtain evs' p1 where ep: "ep = (evs', p1)" by (cases ep)
    from n Inr ep have e: "p1 = p\<lparr>calls := calls p @ ncalls\<rparr>"
        "map call_module ncalls = moduleOrder p"
        "chained en (calls p) events ncalls = Some (Inr evs')" by auto
    let ?p2 = "p1\<lparr>triggerModules := moduleOrder p1\<rparr>"
    have pe: "parseEvents en events p = trigger_phase en evs' ?p2"
      using Inr ep by (simp add: parseEvents_phases)
    obtain tcalls where t: "calls (state_of (trigger_phase en evs' ?p2)) = calls ?p2 @ tcalls"
        "list_all is_trigger_call tcalls"
      using trigger_phase_steps[of ?p2 en evs'] by (auto simp: trigger_steps_def)
    show ?thesis
      by (rule exI[of _ ncalls], rule exI[of _ tcalls], rule exI[of _ "Inr evs'"])
         (use e pe t in simp)
  qed
qed

theorem normalisers_run_once_before_delivery_witness:
  "list_all (\<lambda>m. modules built_star m \<noteq> None) (moduleOrder built_star) \<and>
   (\<exists>ncalls tcalls res.
           calls (state_of (parseEvents quiet_env [cast_event] built_star)) = calls built_star @ ncalls @ tcalls \<and>
           chained quiet_env (calls built_star) [cast_event] ncalls = Some res \<and>
           list_all is_trigger_call tcalls \<and>
           (case res of
              Inr events' \<Rightarrow> map call_module ncalls = moduleOrder built_star
            | Inl e \<Rightarrow> prefix (map call_module ncalls) (moduleOrder built_star) \<and> tcalls = [] \<and>
                       (\<exists>q. parseEvents quiet_env [cast_event] built_star = Inl (Uncaught e, q))))"
  using normalisers_run_once_before_delivery[OF built_star_modules, of quiet_env "[cast_event]"]
        built_star_modules unfolding list_all_iff by blast

section \<open>Live modules and recorded errors\<close>

text \<open>
  C3. Take a run: a new parser, built with \<^verbatim>\<open>buildModules\<close> (toposort keeping its contract), then
  \<^verbatim>\<open>parseEvents\<close>. When \<^verbatim>\<open>parseEvents\<close> copies the build order into \<^verbatim>\<open>_triggerModules\<close>, no
  module is live twice and none has a recorded error (\<open>isolated\<close>), and that still holds of the
  parser the run ends with, whose live modules are a subsequence of that copy and whose recorded
  errors include all the earlier ones (\<open>shrinks\<close>). In between, the only places that change the two
  fields are \<^verbatim>\<open>_setModuleError\<close>, \<^verbatim>\<open>triggerEvent\<close> and \<^verbatim>\<open>fabricateEvent\<close>: from any parser in which
  the live modules and the failed ones are disjoint each of them leads to one in which they are
  disjoint again, with the live modules shrunk and the errors grown. Hence a module with a recorded
  error is not live in any later parser of the run.
\<close>

theorem live_and_failed_stay_apart:
  assumes "toposort_contract ts (nodes_of (constructors (new_parser dm f)))
             (edges_of (constructors (new_parser dm f)))"
      and "buildModules ts en0 (new_parser dm f) = Inr p"
  shows "(\<forall>events evs' p1. runNormalisers en (moduleOrder p) events p = Inr (evs', p1) \<longrightarrow>
            isolated (p1\<lparr>triggerModules := moduleOrder p1\<rparr>) \<and>
            isolated (state_of (parseEvents en events p)) \<and>
            shrinks (p1\<lparr>triggerModules := moduleOrder p1\<rparr>) (state_of (parseEvents en events p)))
       \<and> (\<forall>q. isolated q \<longrightarrow>
            (\<forall>n m err. isolated (state_of (setModuleError n m err q)) \<and>
                        shrinks q (state_of (setModuleError n m err q))) \<and>
            (\<forall>ev. isolated (state_of (triggerEvent en ev q)) \<and>
                   shrinks q (state_of (triggerEvent en ev q))) \<and>
            (\<forall>pr trig. isolated (state_of (fabricateEvent en pr trig q)) \<and>
                   shrinks q (state_of (fabricateEvent en pr trig q))))
       \<and> (\<forall>q r. shrinks q r \<and> isolated r \<longrightarrow> set (triggerModules r) \<inter> dom (moduleErrors q) = {})"
proof -
  note b = buildModules_Inr[OF assms]
  have d: "distinct (moduleOrder p)" using b(1) by (simp add: dependency_order_def)
  have e: "moduleErrors p = Map.empty" using b(3) by (simp add: new_parser_fields)
  have 1: "isolated (p1\<lparr>triggerModules := moduleOrder p1\<rparr>) \<and>
            isolated (state_of (parseEvents en events p)) \<and>
            shrinks (p1\<lparr>triggerModules := moduleOrder p1\<rparr>) (state_of (parseEvents en events p))"
    if r: "runNormalisers en (moduleOrder p) events p = Inr (evs', p1)" for events evs' p1
  proof -
    obtain cs where p1: "p1 = p\<lparr>calls := cs\<rparr>" using runNormalisers_state[OF r] by blast
    let ?p2 = "p1\<lparr>triggerModules := moduleOrder p1\<rparr>"
    have i: "isolated ?p2" using d e by (simp add: isolated_def p1)
    have "parseEvents en events p = trigger_phase en evs' ?p2" using r by (simp add: parseEvents_phases)
    then show ?thesis using trigger_phase_steps[of ?p2 en evs'] i by (simp add: trigger_steps_def)
  qed
  have 2: "(\<forall>n m err. isolated (state_of (setModuleError n m err q)) \<and>
                        shrinks q (state_of (setModuleError n m err q))) \<and>
            (\<forall>ev. isolated (state_of (triggerEvent en ev q)) \<and>
                   shrinks q (state_of (triggerEvent en ev q))) \<and>
            (\<forall>pr trig. isolated (state_of (fabricateEvent en pr trig q)) \<and>
                   shrinks q (state_of (fabricateEvent en pr trig q)))" if "isolated q" for q
    using that setModuleError_evolves[of q] triggerEvent_steps[of q en] fabricateEvent_steps[of q en]
    by (simp add: trigger_steps_def)
  have 3: "set (triggerModules r) \<inter> dom (moduleErrors q) = {}" if "shrinks q r \<and> isolated r" for q r
    using that by (auto simp: shrinks_def isolated_def)
  show ?thesis using 1 2 3 by blast
qed

theorem live_and_failed_stay_apart_witness:
  "toposort_contract toposort_array (nodes_of (constructors (fresh_parser star_classes)))
             (edges_of (constructors (fresh_parser star_classes))) \<and>
   buildModules toposort_array quiet_env (fresh_parser star_classes) = Inr built_star \<and>
   isolated (state_of (parseEvents (throwing_env ''a'' ''cast'') [cast_event] built_star)) \<and>
   triggerModules (state_of (parseEvents (throwing_env ''a'' ''cast'') [cast_event] built_star)) = [] \<and>
   moduleErrors (state_of (parseEvents (throwing_env ''a'' ''cast'') [cast_event] built_star)) ''b''
      = Some (DependencyCascadeError ''a'')"
proof -
  obtain evs' p1 where r:
    "runNormalisers (throwing_env ''a'' ''cast'') (moduleOrder built_star) [cast_event] built_star = Inr (evs', p1)"
    using star_normalised by blast
  have c: "triggerModules (state_of (parseEvents (throwing_env ''a'' ''cast'') [cast_event] built_star)) = []"
    "moduleErrors (state_of (parseEvents (throwing_env ''a'' ''cast'') [cast_event] built_star)) ''b''
      = Some (DependencyCascadeError ''a'')"
    by code_simp+
  have "isolated (state_of (parseEvents (throwing_env ''a'' ''cast'') [cast_event] built_star))"
    using live_and_failed_stay_apart[OF star_contract[unfolded fresh_parser_def] built_star_Inr[unfolded fresh_parser_def],
             of "throwing_env ''a'' ''cast''"] r by blast
  then show ?thesis using star_contract built_star_Inr c by blast
qed

section \<open>Fabricated events\<close>

text \<open>
  C7 (as amended). \<^verbatim>\<open>parseEvents\<close> fabricates the \<open>init\<close> event on the parser whose live modules
  are the whole build order, before the first real event, and the \<open>complete\<close> event on the parser
  left by the last real event. A fabricated event is handed only to modules that are live when it
  is fabricated, each at most once and in their order (the resolver order), and to every one of
  them when no module is removed while it is delivered. Every fabricated event carries the mark,
  and its timestamp is the one given to \<^verbatim>\<open>fabricateEvent\<close> or else the parser's timestamp clamped
  to the end of the fight.
\<close>

theorem fabricated_event_delivery:
  "(\<exists>ms. calls (state_of (fabricateEvent en pr trig p))
           = calls p @ map (\<lambda>m. TriggerEvent m (fabricated_event pr trig p)) ms \<and>
         subseq ms (triggerModules p) \<and>
         (triggerModules (state_of (fabricateEvent en pr trig p)) = triggerModules p
            \<longrightarrow> ms = triggerModules p))
   \<and> fabricated (fabricated_event pr trig p)
   \<and> timestamp (fabricated_event pr trig p)
       = (case props_timestamp pr of
            None \<Rightarrow> min (end_time (the_fight p)) (cur_timestamp p)
          | Some t \<Rightarrow> t)
   \<and> parseEvents en events p =
       (case runNormalisers en (moduleOrder p) events p of
          Inl f \<Rightarrow> Inl f
        | Inr (events', p1) \<Rightarrow>
            (case fabricateEvent en (props ''init'') None (p1\<lparr>triggerModules := moduleOrder p1\<rparr>) of
               Inl f \<Rightarrow> Inl f
             | Inr p3 \<Rightarrow>
                 (case forEach (analyse en) events' p3 of
                    Inl f \<Rightarrow> Inl f
                  | Inr p4 \<Rightarrow> fabricateEvent en (props ''complete'') None p4)))"
proof -
  have 1: "\<exists>ms. calls (state_of (fabricateEvent en pr trig p))
           = calls p @ map (\<lambda>m. TriggerEvent m (fabricated_event pr trig p)) ms \<and>
         subseq ms (triggerModules p) \<and>
         (triggerModules (state_of (fabricateEvent en pr trig p)) = triggerModules p
            \<longrightarrow> ms = triggerModules p)"
    unfolding fabricateEvent_def by (rule triggerEvent_recipients)
  have 2: "fabricated (fabricated_event pr trig p)" by (simp add: fabricated_event_def)
  have 3: "timestamp (fabricated_event pr trig p)
       = (case props_timestamp pr of
            None \<Rightarrow> min (end_time (the_fight p)) (cur_timestamp p)
          | Some t \<Rightarrow> t)"
    by (simp add: fabricated_event_def currentTimestamp_def split: option.splits)
  have 4: "parseEvents en events p =
       (case runNormalisers en (moduleOrder p) events p of
          Inl f \<Rightarrow> Inl f
        | Inr (events', p1) \<Rightarrow>
            (case fabricateEvent en (props ''init'') None (p1\<lparr>triggerModules := moduleOrder p1\<rparr>) of
               Inl f \<Rightarrow> Inl f
             | Inr p3 \<Rightarrow>
                 (case forEach (analyse en) events' p3 of
                    Inl f \<Rightarrow> Inl f
                  | Inr p4 \<Rightarrow> fabricateEvent en (props ''complete'') None p4)))"
    by (simp add: parseEvents_def Let_def split: sum.splits prod.splits)
  show ?thesis using 1 2 3 4 by blast
qed

text \<open>
  The claim as it was stated fails when a module throws on the \<open>init\<close> event itself: in the
  star \<open>b \<rightarrow> a \<leftarrow> c\<close> the build order is \<open>a\<close>, \<open>c\<close>, \<open>b\<close>; \<open>a\<close> throws on \<open>init\<close>, its
  dependents are removed with it, and \<open>init\<close> has reached \<open>a\<close> alone: neither the modules live when
  it was fabricated nor the (empty) set live before the first real event.
\<close>

theorem init_not_delivered_to_all_live:
  "moduleOrder built_star = [''a'', ''c'', ''b'']
   \<and> recipients init_event (calls (state_of (parseEvents (throwing_env ''a'' ''init'') [] built_star))) = [''a'']
   \<and> triggerModules (state_of (fabricateEvent (throwing_env ''a'' ''init'') (props ''init'') None
         (built_star\<lparr>triggerModules := moduleOrder built_star\<rparr>))) = []"
  by code_simp

theorem fabricated_event_delivery_witness:
  "triggerModules (state_of (fabricateEvent quiet_env (props ''init'') None started_star)) = triggerModules started_star
   \<and> calls (state_of (fabricateEvent quiet_env (props ''init'') None started_star))
       = calls started_star @ map (\<lambda>m. TriggerEvent m init_event) [''a'', ''c'', ''b'']"
proof -
  have 1: "triggerModules (state_of (fabricateEvent quiet_env (props ''init'') None started_star)) = triggerModules started_star"
    by code_simp
  have 2: "triggerModules started_star = [''a'', ''c'', ''b'']" by code_simp
  have 3: "fabricated_event (props ''init'') None started_star = init_event" by code_simp
  show ?thesis
    using fabricated_event_delivery[of quiet_env "props ''init''" None started_star "[]"] 1
    unfolding 2 3 by auto
qed

section \<open>The report\<close>

text \<open>
  C8. For a parser whose build order holds only built modules, \<^verbatim>\<open>generateResults\<close> visits the
  modules of \<^verbatim>\<open>moduleOrder\<close> sorted by \<^verbatim>\<open>displayOrder\<close>: the same modules, in ascending priority, and
  modules of equal priority in the order they had in \<^verbatim>\<open>moduleOrder\<close> (a stable sort). The entries it
  returns are those of \<open>report\<close>, which follows the words of the specification: a module with a
  recorded error gives one entry, its name with the error placeholder, and its \<^verbatim>\<open>output\<close> is not
  called; any other module has \<^verbatim>\<open>output\<close> called once and gives one entry, its name with the
  output, when the output is present, and no entry when it is absent. \<^verbatim>\<open>generateResults\<close> fails only
  when an \<^verbatim>\<open>output\<close> call throws.
\<close>

theorem results_follow_display_order:
  assumes "\<forall>m \<in> set (moduleOrder p). modules p m \<noteq> None"
  shows "(case generateResults en p of
            Inr (results, q) \<Rightarrow>
              moduleOrder q = sort_key (displayOrderOf p) (moduleOrder p) \<and>
              report en p (calls p) (moduleOrder q) = Inr results \<and>
              calls q = calls p @ output_calls p (moduleOrder q)
          | Inl (f, q) \<Rightarrow>
              (\<exists>e. f = Uncaught e \<and>
                   report en p (calls p) (sort_key (displayOrderOf p) (moduleOrder p)) = Inl e))
       \<and> mset (sort_key (displayOrderOf p) (moduleOrder p)) = mset (moduleOrder p)
       \<and> sorted (map (displayOrderOf p) (sort_key (displayOrderOf p) (moduleOrder p)))
       \<and> (\<forall>k. filter (\<lambda>m. displayOrderOf p m = k) (sort_key (displayOrderOf p) (moduleOrder p))
               = filter (\<lambda>m. displayOrderOf p m = k) (moduleOrder p))"
proof -
  have 1: "(case generateResults en p of
            Inr (results, q) \<Rightarrow>
              moduleOrder q = sort_key (displayOrderOf p) (moduleOrder p) \<and>
              report en p (calls p) (moduleOrder q) = Inr results \<and>
              calls q = calls p @ output_calls p (moduleOrder q)
          | Inl (f, q) \<Rightarrow>
              (\<exists>e. f = Uncaught e \<and>
                   report en p (calls p) (sort_key (displayOrderOf p) (moduleOrder p)) = Inl e))"
    using generateResults_report[OF assms, of en]
    by (cases "report en p (calls p) (sort_key (displayOrderOf p) (moduleOrder p))") auto
  show ?thesis using 1 by (simp add: sort_key_stable)
qed

text \<open>
  C10. The sort of \<^verbatim>\<open>generateResults\<close> leaves \<^verbatim>\<open>moduleOrder\<close> sorted, and sorting a sorted array
  with a stable sort changes nothing: a second call visits the modules in the same order as the
  first. It returns the same entries, provided the modules' \<^verbatim>\<open>output\<close> can be repeated, that is,
  what an \<^verbatim>\<open>output\<close> call returns does not depend on the \<^verbatim>\<open>output\<close> calls made before it.
\<close>

theorem repeated_results_agree:
  assumes "repeatable_output en" and "generateResults en p = Inr (results, q)"
  shows "\<exists>q'. generateResults en q = Inr (results, q') \<and> moduleOrder q' = moduleOrder q"
proof -
  let ?srt = "sort_key (displayOrderOf p) (moduleOrder p)"
  have b: "\<forall>m \<in> set (moduleOrder p). modules p m \<noteq> None"
    using assms(2) by (auto simp: generateResults_def split: if_splits)
  have r: "report en p (calls p) ?srt = Inr results"
    and q: "q = p\<lparr>moduleOrder := ?srt, calls := calls p @ output_calls p ?srt\<rparr>"
    using generateResults_report[OF b, of en] assms(2)
    by (auto split: sum.splits)
  have d: "displayOrderOf q = displayOrderOf p" by (rule ext) (simp add: displayOrderOf_def q)
  have s: "sort_key (displayOrderOf q) (moduleOrder q) = ?srt"
    unfolding d by (simp add: q sort_key_id_if_sorted)
  have bq: "\<forall>m \<in> set (moduleOrder q). modules q m \<noteq> None" using b by (simp add: q)
  have o: "list_all is_output_call (output_calls p ?srt)"
    by (simp add: output_calls_def list_all_iff)
  have "report en q (calls q) ?srt = report en p (calls q) ?srt"
    by (rule report_cong) (simp_all add: q)
  also have "\<dots> = report en p (calls p @ []) ?srt"
    unfolding q using report_repeatable[OF assms(1) o, where ?cs2.0 = "[]" and p = p and h = "calls p" and ms = ?srt] by simp
  finally have rq: "report en q (calls q) ?srt = Inr results" using r by simp
  show ?thesis
    using generateResults_report[OF bq, of en] unfolding s rq by (simp add: q)
qed

theorem results_follow_display_order_witness:
  "moduleOrder finished_run = [''d'', ''c'', ''a'', ''b'']
   \<and> sort_key (displayOrderOf finished_run) (moduleOrder finished_run) = [''d'', ''c'', ''b'', ''a'']
   \<and> (\<exists>q. generateResults reporting_env finished_run
         = Inr ([(''C'', ErrorMessage (Caught (Exception ''boom''))), (''B'', Markup ''b''), (''A'', Markup ''a'')], q))"
proof -
  have 1: "moduleOrder finished_run = [''d'', ''c'', ''a'', ''b'']"
    "sort_key (displayOrderOf finished_run) (moduleOrder finished_run) = [''d'', ''c'', ''b'', ''a'']"
    by code_simp+
  have "\<exists>q. generateResults reporting_env finished_run
         = Inr ([(''C'', ErrorMessage (Caught (Exception ''boom''))), (''B'', Markup ''b''), (''A'', Markup ''a'')], q)"
    using results_follow_display_order[OF finished_run_modules, of reporting_env] finished_run_report
    by (cases "generateResults reporting_env finished_run") auto
  then show ?thesis using 1 by blast
qed

theorem repeated_results_agree_witness:
  "repeatable_output reporting_env
   \<and> results_of (generateResults reporting_env finished_run)
       = [(''C'', ErrorMessage (Caught (Exception ''boom''))), (''B'', Markup ''b''), (''A'', Markup ''a'')]
   \<and> (\<exists>q'. generateResults reporting_env (parser_of (generateResults reporting_env finished_run))
         = Inr ([(''C'', ErrorMessage (Caught (Exception ''boom''))), (''B'', Markup ''b''), (''A'', Markup ''a'')], q'))"
proof -
  have r: "results_of (generateResults reporting_env finished_run)
       = [(''C'', ErrorMessage (Caught (Exception ''boom''))), (''B'', Markup ''b''), (''A'', Markup ''a'')]"
    by code_simp
  show ?thesis
    using repeated_results_agree[OF reporting_env_repeatable finished_run_results] r reporting_env_repeatable
    by auto
qed

section \<open>Modules without an ordering constraint\<close>

text \<open>
  C9 (as amended). The build order is the reverse of the list toposort returns, and with it a
  function of the descriptor set. With toposort as the package implements it, a descriptor set
  in which no module declares a dependency is built in the reverse of the registration order:
  toposort returns the nodes as they were given, and \<^verbatim>\<open>buildModules\<close> reverses them.
\<close>

theorem independent_modules_build_in_reverse:
  "(\<forall>srt. ts (nodes_of (constructors p)) (edges_of (constructors p)) = Inr srt \<longrightarrow>
          moduleOrder (state_of (buildModules ts en p)) = rev srt)
   \<and> (distinct (nodes_of (constructors p)) \<and>
        (\<forall>(m, c) \<in> set (constructors p). dependencies c = []) \<longrightarrow>
        moduleOrder (state_of (buildModules toposort_array en p)) = rev (nodes_of (constructors p)))"
proof -
  have "moduleOrder (state_of (buildModules toposort_array en p)) = rev (nodes_of (constructors p))"
    if d: "distinct (nodes_of (constructors p))"
      and n: "\<forall>(m, c) \<in> set (constructors p). dependencies c = []"
  proof -
    have "toposort_array (nodes_of (constructors p)) (edges_of (constructors p))
            = Inr (nodes_of (constructors p))"
      using toposort_array_no_edges[OF d] edges_of_none[OF n] by simp
    then show ?thesis by (rule buildModules_moduleOrder)
  qed
  then show ?thesis using buildModules_moduleOrder[of ts p _ en] by blast
qed

text \<open>
  The claim as it was stated fails for two modules registered as \<open>a\<close>, \<open>b\<close>, neither depending
  on the other: the build order is \<open>b\<close>, \<open>a\<close>.
\<close>

theorem registration_order_not_kept:
  "nodes_of (constructors (fresh_parser two_classes)) = [''a'', ''b'']
   \<and> edges_of (constructors (fresh_parser two_classes)) = []
   \<and> moduleOrder (state_of (buildModules toposort_array quiet_env (fresh_parser two_classes)))
       = [''b'', ''a'']"
  by code_simp

theorem independent_modules_build_in_reverse_witness:
  "distinct (nodes_of (constructors (fresh_parser two_classes)))
   \<and> list_all (\<lambda>(m, c). dependencies c = []) (constructors (fresh_parser two_classes))
   \<and> moduleOrder (state_of (buildModules toposort_array quiet_env (fresh_parser two_classes)))
       = rev [''a'', ''b'']"
proof -
  have 1: "distinct (nodes_of (constructors (fresh_parser two_classes)))" by code_simp
  have 2: "list_all (\<lambda>(m, c). dependencies c = []) (constructors (fresh_parser two_classes))" by code_simp
  have 3: "nodes_of (constructors (fresh_parser two_classes)) = [''a'', ''b'']" by code_simp
  show ?thesis
    using independent_modules_build_in_reverse[of toposort_array "fresh_parser two_classes" quiet_env]
          1 2[unfolded list_all_iff] 2
    unfolding 3 by blast
qed

section \<open>The cascade of a failure\<close>

text \<open>
  C1 (as amended). Let the registered classes have a dependency order (as every built parser
  has) and let no module be live twice. When the \<^verbatim>\<open>triggerEvent\<close> of a module \<open>b\<close> throws,
  \<^verbatim>\<open>_setModuleError\<close> returns, \<open>b\<close> is no longer live and its entry is the value it threw. Every
  module \<open>a\<close> that depends on \<open>b\<close>, directly or through other modules, is no longer live and is
  handed no event from then on, neither for the rest of the current delivery nor in any later one
  (the \<open>complete\<close> event included); its entry is a \<^verbatim>\<open>DependencyCascadeError\<close> that names one of the
  dependencies \<open>a\<close> itself declares, one that is \<open>b\<close> or depends on \<open>b\<close>. A module without a
  dependency path to \<open>b\<close> keeps the entry it had, or none.
\<close>

theorem failure_cascades_to_dependents:
  assumes "dependency_order (constructors p) order" and "distinct (triggerModules p)"
  shows "\<exists>q. setModuleError (stackDepth p) b (Caught e) p = Inr q \<and>
             b \<notin> set (triggerModules q) \<and> moduleErrors q b = Some (Caught e) \<and>
             (\<forall>a. depends_on (constructors p) a b \<longrightarrow>
                  a \<notin> set (triggerModules q) \<and>
                  cascade_entry (constructors p) b a (moduleErrors q a) \<and>
                  (\<forall>r ev k n. shrinks q r \<longrightarrow>
                      TriggerEvent a ev \<notin> set (drop (length (calls r))
                                                   (calls (state_of (deliver en ev k n r)))))) \<and>
             (\<forall>a. a \<noteq> b \<and> \<not> depends_on (constructors p) a b \<longrightarrow>
                  moduleErrors q a = moduleErrors p a)"
proof -
  have "int (length order) \<le> int (stackDepth p) + indexOf order b"
  proof -
    have "- 1 \<le> indexOf order b"
      by (cases "b \<in> set order") (simp_all add: indexOf_mem indexOf_notmem)
    then show ?thesis using dependency_order_length[OF assms(1)] by (simp add: stackDepth_def)
  qed
  then obtain q where q: "setModuleError (stackDepth p) b (Caught e) p = Inr q"
      "cascaded b (Caught e) p q"
    using setModuleError_cascades[OF assms(1) refl assms(2)] by blast
  have later: "TriggerEvent a ev \<notin> set (drop (length (calls r)) (calls (state_of (deliver en ev k n r))))"
    if "a \<notin> set (triggerModules q)" "shrinks q r" for a r ev k n
    using deliver_new_calls[OF shrinks_live[OF that(2,1)]] .
  show ?thesis using q later unfolding cascaded_def by blast
qed

text \<open>
  The claim as it was stated fails in the chain \<open>c \<rightarrow> b \<rightarrow> a\<close> when \<open>a\<close> throws: the entry of
  \<open>c\<close> names \<open>b\<close>, the dependency it declares, not the module \<open>a\<close> that threw.
\<close>

theorem cascade_names_direct_dependency:
  "edges_of (constructors (fresh_parser chain_classes)) = [(''b'', ''a''), (''c'', ''b'')]
   \<and> moduleErrors (state_of (run (throwing_env ''a'' ''cast'') chain_classes [cast_event])) ''a''
       = Some (Caught (Exception ''boom''))
   \<and> moduleErrors (state_of (run (throwing_env ''a'' ''cast'') chain_classes [cast_event])) ''c''
       = Some (DependencyCascadeError ''b'')"
  by code_simp

theorem failure_cascades_to_dependents_witness:
  "dependency_order (constructors started_chain) (moduleOrder started_chain)
   \<and> distinct (triggerModules started_chain)
   \<and> depends_on (constructors started_chain) ''c'' ''a''
   \<and> (\<exists>q. setModuleError (stackDepth started_chain) ''a'' (Caught (Exception ''boom'')) started_chain = Inr q
          \<and> ''c'' \<notin> set (triggerModules q)
          \<and> cascade_entry (constructors started_chain) ''a'' ''c'' (moduleErrors q ''c''))"
  using failure_cascades_to_dependents[OF started_chain_order started_chain_distinct,
          of "''a''" "Exception ''boom''" quiet_env]
        started_chain_order started_chain_distinct started_chain_depends
  by blast

end
